theory Spec2Isabelle
  imports Complex_Main "HOL-Library.Word"
begin

section \<open>Data model\<close>

text \<open>
  The C program \<^verbatim>\<open>edge_detector.c\<close> reads P6 images, convolves each with a fixed 3 by 3
  Laplacian kernel using \<^verbatim>\<open>LAPLACIAN_THREADS\<close> worker threads, and writes the results.

  An \<^verbatim>\<open>unsigned char\<close> is an 8-bit word. A value of type \<^verbatim>\<open>unsigned long\<close> is a natural
  number and a value of type \<^verbatim>\<open>int\<close> an integer (LP64). Unsigned arithmetic is done modulo
  \<open>2^64\<close> (\<open>to_ulong\<close>); a conversion to \<^verbatim>\<open>int\<close> keeps the low 32 bits in two's complement
  (\<open>to_int\<close>), as gcc defines it. An \<^verbatim>\<open>int\<close> operation whose result is not in the range of
  \<^verbatim>\<open>int\<close>, a division by zero and an access outside a buffer are undefined behaviour in
  C: each is a \<open>fault\<close>, and a function that meets one returns it (\<open>Inl\<close>) in place of a
  result.
\<close>

type_synonym byte = "8 word"

record PPMPixel =
  r :: byte
  g :: byte
  b :: byte

record parameter =
  param_image :: "PPMPixel list"
  param_result :: "PPMPixel list"
  param_w :: nat
  param_h :: nat
  param_start :: nat
  param_size :: nat

definition LAPLACIAN_THREADS :: nat where
  "LAPLACIAN_THREADS = 23"

definition FILTER_WIDTH :: nat where
  "FILTER_WIDTH = 3"

definition FILTER_HEIGHT :: nat where
  "FILTER_HEIGHT = 3"

definition RGB_COMPONENT_COLOR :: int where
  "RGB_COMPONENT_COLOR = 255"

definition laplacian :: "int list list" where
  "laplacian = [[-1, -1, -1], [-1, 8, -1], [-1, -1, -1]]"

text \<open>Conversions between the integer types of the code, and the range of \<^verbatim>\<open>int\<close>.\<close>

definition to_int :: "int \<Rightarrow> int" where
  \<comment> \<open>conversion to a 32-bit \<^verbatim>\<open>int\<close>\<close>
  "to_int v = (v + 2 ^ 31) mod 2 ^ 32 - 2 ^ 31"

definition to_ulong :: "int \<Rightarrow> nat" where
  \<comment> \<open>conversion to a 64-bit \<^verbatim>\<open>unsigned long\<close>\<close>
  "to_ulong v = nat (v mod 2 ^ 64)"

definition in_int :: "int \<Rightarrow> bool" where
  "in_int v \<longleftrightarrow> - (2 ^ 31) \<le> v \<and> v < 2 ^ 31"

datatype fault = NullStream | SignedOverflow | DivisionByZero | OutOfBounds

section \<open>The convolution worker\<close>

text \<open>
  A store into one channel of one pixel of the shared result buffer: the index of the
  pixel, the channel and the byte stored. These are the only writes a worker performs.
\<close>

datatype channel = Red | Green | Blue

type_synonym store = "nat \<times> channel \<times> byte"

fun set_channel :: "channel \<Rightarrow> byte \<Rightarrow> PPMPixel \<Rightarrow> PPMPixel" where
  "set_channel Red v px = px\<lparr>r := v\<rparr>"
| "set_channel Green v px = px\<lparr>g := v\<rparr>"
| "set_channel Blue v px = px\<lparr>b := v\<rparr>"

fun get_channel :: "channel \<Rightarrow> PPMPixel \<Rightarrow> byte" where
  "get_channel Red px = r px"
| "get_channel Green px = g px"
| "get_channel Blue px = b px"

fun apply_store :: "store \<Rightarrow> PPMPixel list \<Rightarrow> PPMPixel list" where
  "apply_store (idx, c, v) res = res[idx := set_channel c v (res ! idx)]"

text \<open>
  \<^verbatim>\<open>x_coordinate = (iteratorImageWidth - FILTER_WIDTH / 2 + iteratorFilterWidth + param->w) % param->w\<close>,
  and the same for \<^verbatim>\<open>y_coordinate\<close>: the first three terms are added as \<^verbatim>\<open>int\<close>, the sum is
  converted to \<^verbatim>\<open>unsigned long\<close> and added to \<^verbatim>\<open>param->w\<close>, and the remainder, an
  \<^verbatim>\<open>unsigned long\<close>, is converted to the \<^verbatim>\<open>int\<close> variable.
\<close>

definition wrap_coordinate :: "int \<Rightarrow> nat \<Rightarrow> nat \<Rightarrow> nat \<Rightarrow> fault + int" where
  "wrap_coordinate pos half k n =
     (if \<not> in_int (pos - int half) \<or> \<not> in_int (pos - int half + int k) then Inl SignedOverflow
      else if n = 0 then Inl DivisionByZero
      else Inr (to_int (int (to_ulong (int (to_ulong (pos - int half + int k)) + int n) mod n))))"

text \<open>
  The two innermost loops, over \<^verbatim>\<open>iteratorFilterWidth\<close> (outer) and
  \<^verbatim>\<open>iteratorFilterHeight\<close> (inner), accumulate \<^verbatim>\<open>red\<close>, \<^verbatim>\<open>green\<close> and \<^verbatim>\<open>blue\<close>. The
  index \<^verbatim>\<open>y_coordinate * param->w + x_coordinate\<close> is an \<^verbatim>\<open>unsigned long\<close>. The sums stay
  within \<open>9 * 8 * 255\<close> in absolute value.
\<close>

function filter_height_loop ::
  "parameter \<Rightarrow> int \<Rightarrow> int \<Rightarrow> nat \<Rightarrow> nat \<Rightarrow> int \<times> int \<times> int \<Rightarrow> fault + int \<times> int \<times> int" where
  "filter_height_loop p iw ih fw fh (red, green, blue) =
     (if fh < FILTER_HEIGHT then
        (case wrap_coordinate iw (FILTER_WIDTH div 2) fw (param_w p) of
           Inl f \<Rightarrow> Inl f
         | Inr x_coordinate \<Rightarrow>
             (case wrap_coordinate ih (FILTER_HEIGHT div 2) fh (param_h p) of
                Inl f \<Rightarrow> Inl f
              | Inr y_coordinate \<Rightarrow>
                  (let idx = to_ulong (y_coordinate * int (param_w p) + x_coordinate)
                   in if length (param_image p) \<le> idx then Inl OutOfBounds
                      else
                        (let px = param_image p ! idx;
                             k = laplacian ! fh ! fw
                         in filter_height_loop p iw ih fw (fh + 1)
                              (red + uint (r px) * k, green + uint (g px) * k,
                               blue + uint (b px) * k)))))
      else Inr (red, green, blue))"
  by pat_completeness auto
termination
  by (relation "measure (\<lambda>(p, iw, ih, fw, fh, acc). FILTER_HEIGHT - fh)") auto

function filter_width_loop ::
  "parameter \<Rightarrow> int \<Rightarrow> int \<Rightarrow> nat \<Rightarrow> int \<times> int \<times> int \<Rightarrow> fault + int \<times> int \<times> int" where
  "filter_width_loop p iw ih fw acc =
     (if fw < FILTER_WIDTH then
        (case filter_height_loop p iw ih fw 0 acc of
           Inl f \<Rightarrow> Inl f
         | Inr acc' \<Rightarrow> filter_width_loop p iw ih (fw + 1) acc')
      else Inr acc)"
  by pat_completeness auto
termination
  by (relation "measure (\<lambda>(p, iw, ih, fw, acc). FILTER_WIDTH - fw)") auto

definition truncate_channel :: "int \<Rightarrow> int" where
  \<comment> \<open>\<^verbatim>\<open>if(red < 0) red = 0; else if(red > 255) red = 255;\<close>\<close>
  "truncate_channel v = (if v < 0 then 0 else if v > 255 then 255 else v)"

definition channel_stores :: "nat \<Rightarrow> int \<times> int \<times> int \<Rightarrow> store list" where
  \<comment> \<open>the three assignments to \<^verbatim>\<open>param->result[idx]\<close>; each converts an \<^verbatim>\<open>int\<close> to a byte\<close>
  "channel_stores idx acc =
     (case acc of (red, green, blue) \<Rightarrow>
        [(idx, Red, of_int (truncate_channel red)), (idx, Green, of_int (truncate_channel green)),
         (idx, Blue, of_int (truncate_channel blue))])"

text \<open>
  The loop over the rows of the partition, for one column. \<^verbatim>\<open>int iteratorImageHeight\<close>
  starts at \<^verbatim>\<open>param->start\<close> converted to \<^verbatim>\<open>int\<close>; in the test it is converted back to
  \<^verbatim>\<open>unsigned long\<close> and compared with \<^verbatim>\<open>param->start + param->size\<close>. The sums start at
  0, are accumulated over the filter, truncated and stored; then the counter is
  incremented, which is a fault at \<^verbatim>\<open>INT_MAX\<close>. The state of the loops is the result
  buffer together with the list of the stores performed so far, in program order.
\<close>

function height_loop ::
  "parameter \<Rightarrow> int \<Rightarrow> int \<Rightarrow> store list \<times> PPMPixel list \<Rightarrow> fault + store list \<times> PPMPixel list" where
  "height_loop p iw ih (tr, res) =
     (if to_ulong ih < to_ulong (int (param_start p) + int (param_size p)) then
        (case filter_width_loop p iw ih 0 (0, 0, 0) of
           Inl f \<Rightarrow> Inl f
         | Inr acc \<Rightarrow>
             (let idx = to_ulong (ih * int (param_w p) + iw)
              in if length res \<le> idx then Inl OutOfBounds
                 else if \<not> in_int (ih + 1) then Inl SignedOverflow
                 else height_loop p iw (ih + 1)
                        (tr @ channel_stores idx acc, fold apply_store (channel_stores idx acc) res)))
      else Inr (tr, res))"
  by pat_completeness auto
termination
  by (relation "measure (\<lambda>(p, iw, ih, st). nat (2 ^ 31 - ih))") (auto simp: in_int_def)

function width_loop ::
  "parameter \<Rightarrow> int \<Rightarrow> store list \<times> PPMPixel list \<Rightarrow> fault + store list \<times> PPMPixel list" where
  "width_loop p iw st =
     (if to_ulong iw < param_w p then
        (case height_loop p iw (to_int (int (param_start p))) st of
           Inl f \<Rightarrow> Inl f
         | Inr st' \<Rightarrow>
             if \<not> in_int (iw + 1) then Inl SignedOverflow
             else width_loop p (iw + 1) st')
      else Inr st)"
  by pat_completeness auto
termination
  by (relation "measure (\<lambda>(p, iw, st). nat (2 ^ 31 - iw))") (auto simp: in_int_def)

definition compute_laplacian_threadfn :: "parameter \<Rightarrow> fault + store list \<times> PPMPixel list" where
  \<comment> \<open>the stores of the thread and the contents of \<^verbatim>\<open>param->result\<close> when it returns\<close>
  "compute_laplacian_threadfn p = width_loop p 0 ([], param_result p)"

declare filter_height_loop.simps [simp del] filter_width_loop.simps [simp del]
  height_loop.simps [simp del] width_loop.simps [simp del]

section \<open>The environment of the program\<close>

text \<open>
  What the program reads from and writes to outside its own variables: the file system (the
  contents of every file that can be opened for reading, and which paths can be opened for
  writing), the two output streams, the clock read by \<^verbatim>\<open>gettimeofday\<close>, the unspecified
  contents of a block returned by \<^verbatim>\<open>malloc\<close>, and the global \<^verbatim>\<open>total_elapsed_time\<close>.
  The time is a real number: the rounding of \<^verbatim>\<open>double\<close> is not modelled, and \<open>stdout\<close>
  lists the values printed by \<^verbatim>\<open>printf("Time: %.4f\n", ...)\<close>. \<^verbatim>\<open>malloc\<close> and
  \<^verbatim>\<open>pthread_create\<close> are taken to succeed.
\<close>

record timeval =
  tv_sec :: int
  tv_usec :: int

record world =
  files :: "string \<Rightarrow> byte list option"
  can_write :: "string \<Rightarrow> bool"
  stderr :: "string list"
  stdout :: "real list"
  clock :: "nat \<Rightarrow> timeval"
  clock_calls :: nat
  uninit :: "nat \<Rightarrow> PPMPixel"
  total_elapsed_time :: real

definition gettimeofday :: "world \<Rightarrow> timeval \<times> world" where
  "gettimeofday wd = (clock wd (clock_calls wd), wd\<lparr>clock_calls := clock_calls wd + 1\<rparr>)"

definition malloc_pixels :: "world \<Rightarrow> nat \<Rightarrow> PPMPixel list" where
  \<comment> \<open>\<^verbatim>\<open>(PPMPixel*)malloc(bytes)\<close>, with \<^verbatim>\<open>sizeof(PPMPixel)\<close> = 3\<close>
  "malloc_pixels wd bytes = map (uninit wd) [0..<bytes div 3]"

section \<open>The filter engine\<close>

text \<open>
  The parameters that \<^verbatim>\<open>apply_filters\<close> builds for thread \<open>i\<close> of \<open>n\<close>
  (\<open>n\<close> is \<^verbatim>\<open>LAPLACIAN_THREADS\<close> in the code): \<^verbatim>\<open>int work = h / n\<close> converts the
  quotient to \<^verbatim>\<open>int\<close>, \<^verbatim>\<open>start = i * work\<close> is an \<^verbatim>\<open>int\<close> product stored in an
  \<^verbatim>\<open>unsigned long\<close>, and the last thread takes \<^verbatim>\<open>h - start\<close> rows, an \<^verbatim>\<open>unsigned long\<close>
  subtraction.
\<close>

definition thread_param ::
  "nat \<Rightarrow> PPMPixel list \<Rightarrow> PPMPixel list \<Rightarrow> nat \<Rightarrow> nat \<Rightarrow> nat \<Rightarrow> fault + parameter" where
  "thread_param n img result w h i =
     (let work = to_int (int (h div n))
      in if \<not> in_int (int i * work) then Inl SignedOverflow
         else
           (let start = to_ulong (int i * work)
            in Inr \<lparr>param_image = img, param_result = result, param_w = w, param_h = h,
                    param_start = start,
                    param_size = (if i = n - 1 then to_ulong (int h - int start)
                                  else to_ulong work)\<rparr>))"

text \<open>
  The threads are created in the order of their index and joined. They share the result
  buffer; \<open>run_threads\<close> runs them one after the other in the order of creation, and
  \<open>schedule_run\<close> runs them store by store in the order a schedule gives: a list of
  thread indices, each entry letting that thread perform its next store.
  \<open>thread_traces\<close> lists, thread by thread, the stores that each thread performs.
\<close>

definition run_threads ::
  "nat \<Rightarrow> PPMPixel list \<Rightarrow> nat \<Rightarrow> nat \<Rightarrow> PPMPixel list \<Rightarrow> fault + PPMPixel list" where
  "run_threads n img w h result =
     fold (\<lambda>i outcome.
             (case outcome of
                Inl f \<Rightarrow> Inl f
              | Inr res \<Rightarrow>
                  (case thread_param n img res w h i of
                     Inl f \<Rightarrow> Inl f
                   | Inr p \<Rightarrow>
                       (case compute_laplacian_threadfn p of
                          Inl f \<Rightarrow> Inl f
                        | Inr (tr, res') \<Rightarrow> Inr res'))))
          [0..<n] (Inr result)"

fun schedule_run ::
  "nat list \<Rightarrow> store list list \<Rightarrow> PPMPixel list \<Rightarrow> store list list \<times> PPMPixel list" where
  "schedule_run [] ts res = (ts, res)"
| "schedule_run (i # sch) ts res =
     (if i < length ts then
        (case ts ! i of
           [] \<Rightarrow> schedule_run sch ts res
         | s # rest \<Rightarrow> schedule_run sch (ts[i := rest]) (apply_store s res))
      else schedule_run sch ts res)"

fun collect_traces :: "(fault + parameter) list \<Rightarrow> fault + store list list" where
  "collect_traces [] = Inr []"
| "collect_traces (Inl f # ps) = Inl f"
| "collect_traces (Inr p # ps) =
     (case compute_laplacian_threadfn p of
        Inl f \<Rightarrow> Inl f
      | Inr (tr, res) \<Rightarrow>
          (case collect_traces ps of
             Inl f \<Rightarrow> Inl f
           | Inr trs \<Rightarrow> Inr (tr # trs)))"

definition thread_traces ::
  "nat \<Rightarrow> PPMPixel list \<Rightarrow> PPMPixel list \<Rightarrow> nat \<Rightarrow> nat \<Rightarrow> fault + store list list" where
  "thread_traces n img result w h = collect_traces (map (thread_param n img result w h) [0..<n])"

definition rows :: "parameter \<Rightarrow> nat set" where
  "rows p = {param_start p ..< param_start p + param_size p}"

text \<open>
  \<^verbatim>\<open>apply_filters\<close>: the result buffer of \<^verbatim>\<open>w * h * sizeof(PPMPixel)\<close> bytes (an
  \<^verbatim>\<open>unsigned long\<close> product), the threads, and the elapsed time added to
  \<^verbatim>\<open>*elapsedTime\<close>, which is \<^verbatim>\<open>total_elapsed_time\<close> at the only call.
\<close>

definition apply_filters ::
  "PPMPixel list \<Rightarrow> nat \<Rightarrow> nat \<Rightarrow> world \<Rightarrow> fault \<times> world + PPMPixel list \<times> world" where
  "apply_filters img w h wd =
     (case gettimeofday wd of (start, wd1) \<Rightarrow>
        (case run_threads LAPLACIAN_THREADS img w h
                (malloc_pixels wd1 (to_ulong (int (w * h * 3)))) of
           Inl f \<Rightarrow> Inl (f, wd1)
         | Inr result \<Rightarrow>
             (case gettimeofday wd1 of (end, wd2) \<Rightarrow>
                Inr (result,
                     wd2\<lparr>total_elapsed_time := total_elapsed_time wd2
                             + (real_of_int (tv_sec end - tv_sec start)
                                + real_of_int (tv_usec end - tv_usec start) / 1000000.0)\<rparr>))))"

section \<open>Streams and formatted input\<close>

text \<open>
  A \<^verbatim>\<open>FILE *\<close> open for reading is the list of the bytes not yet read. \<^verbatim>\<open>getc\<close> returns
  \<open>None\<close> for \<^verbatim>\<open>EOF\<close>, and keeps returning it at the end of the stream;
  \<^verbatim>\<open>ungetc(EOF, fp)\<close> leaves the stream as it is. \<^verbatim>\<open>fgets(buff, n, fp)\<close> reads at most
  \<open>n - 1\<close> bytes, stops after a newline, appends the terminating zero, and returns
  \<^verbatim>\<open>NULL\<close> (\<open>None\<close>) when it could read no byte. \<^verbatim>\<open>fread(rgb_color, 3, 1, fp)\<close> returns
  one item only when three bytes are left.
\<close>

type_synonym stream = "byte list"

definition bytes_of :: "string \<Rightarrow> byte list" where
  "bytes_of str = map of_char str"

abbreviation newline :: byte where
  "newline \<equiv> 0x0A"

fun getc :: "stream \<Rightarrow> byte option \<times> stream" where
  "getc [] = (None, [])"
| "getc (c # cs) = (Some c, cs)"

fun ungetc :: "byte option \<Rightarrow> stream \<Rightarrow> stream" where
  "ungetc None s = s"
| "ungetc (Some c) s = c # s"

fun fgets_chars :: "nat \<Rightarrow> stream \<Rightarrow> byte list \<times> stream" where
  "fgets_chars 0 s = ([], s)"
| "fgets_chars (Suc k) [] = ([], [])"
| "fgets_chars (Suc k) (c # cs) =
     (if c = newline then ([c], cs)
      else (case fgets_chars k cs of (line, rest) \<Rightarrow> (c # line, rest)))"

definition fgets :: "nat \<Rightarrow> stream \<Rightarrow> (byte list \<times> stream) option" where
  "fgets n s =
     (case fgets_chars (n - 1) s of
        (line, rest) \<Rightarrow> if line = [] then None else Some (line @ [0], rest))"

fun fread3 :: "stream \<Rightarrow> (byte \<times> byte \<times> byte) option \<times> stream" where
  "fread3 (c0 # c1 # c2 # s) = (Some (c0, c1, c2), s)"
| "fread3 s = (None, [])"

text \<open>
  The conversions \<^verbatim>\<open>%ld\<close> and \<^verbatim>\<open>%d\<close> of \<^verbatim>\<open>fscanf\<close>: white space is skipped, then an
  optional sign and a non-empty run of decimal digits are read; \<open>None\<close> is an input or
  matching failure. A value outside \<^verbatim>\<open>long\<close> is stored as \<^verbatim>\<open>LONG_MAX\<close> or
  \<^verbatim>\<open>LONG_MIN\<close>, as glibc does (\<open>to_long\<close>); the code stores a \<^verbatim>\<open>%ld\<close> value into an
  \<^verbatim>\<open>unsigned long\<close> and a \<^verbatim>\<open>%d\<close> value into an \<^verbatim>\<open>int\<close>.
\<close>

definition isspace :: "byte \<Rightarrow> bool" where
  "isspace c \<longleftrightarrow> c = 0x20 \<or> (0x09 \<le> c \<and> c \<le> 0x0D)"

definition isdigit :: "byte \<Rightarrow> bool" where
  "isdigit c \<longleftrightarrow> 0x30 \<le> c \<and> c \<le> 0x39"

definition skip_spaces :: "stream \<Rightarrow> stream" where
  "skip_spaces s = dropWhile isspace s"

fun digits_value :: "int \<Rightarrow> byte list \<Rightarrow> int" where
  "digits_value acc [] = acc"
| "digits_value acc (c # cs) = digits_value (acc * 10 + (uint c - 0x30)) cs"

definition scan_integer :: "stream \<Rightarrow> (int \<times> stream) option" where
  "scan_integer s =
     (let s1 = skip_spaces s;
          negative = (s1 \<noteq> [] \<and> hd s1 = 0x2D);
          s2 = (if s1 \<noteq> [] \<and> (hd s1 = 0x2D \<or> hd s1 = 0x2B) then tl s1 else s1);
          digits = takeWhile isdigit s2
      in if digits = [] then None
         else Some (if negative then - digits_value 0 digits else digits_value 0 digits,
                    dropWhile isdigit s2))"

definition to_long :: "int \<Rightarrow> int" where
  "to_long v = max (- (2 ^ 63)) (min (2 ^ 63 - 1) v)"

definition scan_size :: "stream \<Rightarrow> ((nat \<times> nat) \<times> stream) option" where
  "scan_size s =
     (case scan_integer s of
        None \<Rightarrow> None
      | Some (v1, s1) \<Rightarrow>
          (case scan_integer (skip_spaces s1) of
             None \<Rightarrow> None
           | Some (v2, s2) \<Rightarrow> Some ((to_ulong (to_long v1), to_ulong (to_long v2)), s2)))"

text \<open>
  \<^verbatim>\<open>while (getc(fp) != '\n');\<close> has no test for \<^verbatim>\<open>EOF\<close>: it is a partial function,
  and so is the comment loop around it. \<open>None\<close> means that the loop does not return.
\<close>

partial_function (option) skip_line :: "stream \<Rightarrow> stream option" where
  "skip_line s = (case getc s of (x, s') \<Rightarrow> if x = Some newline then Some s' else skip_line s')"

partial_function (option) skip_comments ::
  "byte option \<Rightarrow> stream \<Rightarrow> (byte option \<times> stream) option" where
  "skip_comments x s =
     (if x = Some 0x23
      then Option.bind (skip_line s) (\<lambda>s'. case getc s' of (x', s'') \<Rightarrow> skip_comments x' s'')
      else Some (x, s))"

declare skip_line.simps [code] skip_comments.simps [code]

text \<open>
  The failures of \<^verbatim>\<open>read_image\<close>, named as the specification names them. Each prints its
  message to \<^verbatim>\<open>stderr\<close> and ends the calling thread with \<^verbatim>\<open>pthread_exit\<close>: the
  result \<open>Inl\<close>. \<open>read_header\<close> is the part of \<^verbatim>\<open>read_image\<close> between \<^verbatim>\<open>fopen\<close> and
  \<^verbatim>\<open>malloc\<close>; the buffer \<^verbatim>\<open>buff\<close> has \<^verbatim>\<open>sizeof(char *) * 8\<close> = 64 bytes.
\<close>

datatype error = IOError | FormatError | SizeError | RangeError

definition read_header :: "stream \<Rightarrow> (error + nat \<times> nat \<times> stream) option" where
  "read_header s0 =
     (case fgets 64 s0 of
        None \<Rightarrow> Some (Inl FormatError)
      | Some (buff, s1) \<Rightarrow>
          if buff ! 0 \<noteq> 0x50 \<or> buff ! 1 \<noteq> 0x36 then Some (Inl FormatError)
          else (case getc s1 of (x, s2) \<Rightarrow>
            Option.bind (skip_comments x s2) (\<lambda>(x', s3).
              (case scan_size (ungetc x' s3) of
                 None \<Rightarrow> Some (Inl SizeError)
               | Some ((width, height), s4) \<Rightarrow>
                   (case scan_integer s4 of
                      None \<Rightarrow> Some (Inl RangeError)
                    | Some (v, s5) \<Rightarrow>
                        if to_int (to_long v) \<noteq> RGB_COMPONENT_COLOR then Some (Inl RangeError)
                        else Option.bind (skip_line s5) (\<lambda>s6. Some (Inr (width, height, s6))))))))"

text \<open>
  The pixel loop: it stops at the first short read and leaves the rest of the buffer as
  \<^verbatim>\<open>malloc\<close> returned it. The counter \<^verbatim>\<open>int i\<close> is converted to \<^verbatim>\<open>unsigned long\<close> for
  the test against \<^verbatim>\<open>*width * *height\<close>; its increment is a fault at \<^verbatim>\<open>INT_MAX\<close>, and
  so is a store outside the block that \<^verbatim>\<open>malloc\<close> returned.
\<close>

function read_pixels :: "int \<Rightarrow> nat \<Rightarrow> stream \<Rightarrow> PPMPixel list \<Rightarrow> fault + PPMPixel list" where
  "read_pixels i n s img =
     (if to_ulong i < n then
        (case fread3 s of
           (None, s') \<Rightarrow> Inr img
         | (Some (c0, c1, c2), s') \<Rightarrow>
             if i < 0 \<or> length img \<le> nat i then Inl OutOfBounds
             else if \<not> in_int (i + 1) then Inl SignedOverflow
             else read_pixels (i + 1) n s'
                    (img[nat i := (img ! nat i)\<lparr>r := c0, g := c1, b := c2\<rparr>]))
      else Inr img)"
  by pat_completeness auto
termination
  by (relation "measure (\<lambda>(i, n, s, img). nat (2 ^ 31 - i))") (auto simp: in_int_def)

declare read_pixels.simps [simp del]

definition error_message :: "error \<Rightarrow> string \<Rightarrow> string" where
  "error_message e filename =
     (case e of
        IOError \<Rightarrow> ''Unable to open file '' @ [CHR 0x27] @ filename @ [CHR 0x27, CHR 0x0A]
      | FormatError \<Rightarrow> ''Invalid image format error must be '' @ [CHR 0x27] @ ''P6'' @ [CHR 0x27, CHR 0x0A]
      | SizeError \<Rightarrow> ''Invalid image size error '' @ [CHR 0x27] @ filename @ [CHR 0x27, CHR 0x0A]
      | RangeError \<Rightarrow> [CHR 0x27] @ filename @ [CHR 0x27] @ '' is not have a valid 255 components'' @ [CHR 0x0A])"

definition log_error :: "string \<Rightarrow> world \<Rightarrow> world" where
  "log_error msg wd = wd\<lparr>stderr := stderr wd @ [msg]\<rparr>"

definition read_image ::
  "string \<Rightarrow> world \<Rightarrow> (error \<times> world + (fault + PPMPixel list \<times> nat \<times> nat)) option" where
  "read_image filename wd =
     (case files wd filename of
        None \<Rightarrow> Some (Inl (IOError, log_error (error_message IOError filename) wd))
      | Some s0 \<Rightarrow>
          Option.bind (read_header s0) (\<lambda>hdr.
            (case hdr of
               Inl e \<Rightarrow> Some (Inl (e, log_error (error_message e filename) wd))
             | Inr (width, height, s) \<Rightarrow>
                 (case read_pixels 0 (to_ulong (int (width * height))) s
                         (malloc_pixels wd (to_ulong (int (width * height * 3)))) of
                    Inl f \<Rightarrow> Some (Inr (Inl f))
                  | Inr img \<Rightarrow> Some (Inr (Inr (img, width, height)))))))"

section \<open>Encoding\<close>

text \<open>
  \<open>dec\<close> is what \<^verbatim>\<open>%lu\<close> and \<^verbatim>\<open>%d\<close> print for a number that is not negative.
  \<^verbatim>\<open>write_image\<close> reports a failed \<^verbatim>\<open>fopen\<close> and then goes on: the next statement
  passes the \<^verbatim>\<open>NULL\<close> stream to \<^verbatim>\<open>fprintf\<close>, which is undefined behaviour and is the
  outcome \<open>Inl NullStream\<close>. \<^verbatim>\<open>fwrite(image, 3 * width, height, fp)\<close> writes the first
  \<open>3 * width * height\<close> bytes of the pixel buffer.
\<close>

function dec_digits :: "nat \<Rightarrow> nat list" where
  "dec_digits n = (if n < 10 then [n] else dec_digits (n div 10) @ [n mod 10])"
  by pat_completeness auto
termination
  by (relation "measure (\<lambda>n. n)") auto

declare dec_digits.simps [simp del]

definition dec :: "nat \<Rightarrow> byte list" where
  "dec n = map (\<lambda>d. of_nat (48 + d)) (dec_digits n)"

definition dec_string :: "nat \<Rightarrow> string" where
  "dec_string n = map (\<lambda>d. ''0123456789'' ! d) (dec_digits n)"

definition pixel_bytes :: "PPMPixel list \<Rightarrow> byte list" where
  "pixel_bytes img = concat (map (\<lambda>px. [r px, g px, b px]) img)"

definition write_image ::
  "PPMPixel list \<Rightarrow> string \<Rightarrow> nat \<Rightarrow> nat \<Rightarrow> world \<Rightarrow> fault \<times> world + world" where
  "write_image img filename width height wd =
     (let fp = (if can_write wd filename then Some [] else None);
          wd1 = (if fp = None then log_error (error_message IOError filename) wd else wd)
      in (case fp of
            None \<Rightarrow> Inl (NullStream, wd1)
          | Some out \<Rightarrow>
              (let out = out @ bytes_of ''P6'' @ [newline];
                   out = out @ dec width @ [0x20] @ dec height @ [newline];
                   out = out @ dec (nat RGB_COMPONENT_COLOR) @ [newline];
                   out = out @ take (to_ulong (int (3 * width)) * height) (pixel_bytes img)
               in Inr (wd1\<lparr>files := (files wd1)(filename \<mapsto> out)\<rparr>))))"

section \<open>The batch\<close>

text \<open>
  \<^verbatim>\<open>manage_image_file\<close> is the thread of one input; a failure of \<^verbatim>\<open>read_image\<close> ends
  it at once. \<^verbatim>\<open>main\<close> starts one such thread per argument and joins them all; the
  model runs them in the order of the arguments. An undefined behaviour in one thread is
  the outcome of the whole process, and a thread that does not return keeps \<^verbatim>\<open>main\<close>
  from returning. The output name is what \<^verbatim>\<open>snprintf(..., 20, "laplacian%d.ppm", i + 1)\<close>
  writes.
\<close>

record file_name_args =
  input_file_name :: string
  output_file_name :: string

definition manage_image_file :: "file_name_args \<Rightarrow> world \<Rightarrow> (fault \<times> world + world) option" where
  "manage_image_file args wd =
     Option.bind (read_image (input_file_name args) wd) (\<lambda>decoded.
       (case decoded of
          Inl (e, wd1) \<Rightarrow> Some (Inr wd1)
        | Inr (Inl f) \<Rightarrow> Some (Inl (f, wd))
        | Inr (Inr (img, width, height)) \<Rightarrow>
            (case apply_filters img width height wd of
               Inl crash \<Rightarrow> Some (Inl crash)
             | Inr (result, wd1) \<Rightarrow>
                 Some (write_image result (output_file_name args) width height wd1))))"

fun run_tasks :: "file_name_args list \<Rightarrow> world \<Rightarrow> (fault \<times> world + world) option" where
  "run_tasks [] wd = Some (Inr wd)"
| "run_tasks (args # rest) wd =
     Option.bind (manage_image_file args wd) (\<lambda>outcome.
       (case outcome of
          Inl crash \<Rightarrow> Some (Inl crash)
        | Inr wd1 \<Rightarrow> run_tasks rest wd1))"

definition file_names :: "string list \<Rightarrow> file_name_args list" where
  "file_names inputs =
     map (\<lambda>(i, name). \<lparr>input_file_name = name,
                         output_file_name = take 19 (''laplacian'' @ dec_string (i + 1) @ ''.ppm'')\<rparr>)
         (enumerate 0 inputs)"

definition main :: "string list \<Rightarrow> world \<Rightarrow> (fault \<times> world + world) option" where
  "main argv wd =
     (if length argv \<le> 1
      then Some (Inr (log_error (''Usage: '' @ hd argv @ '' filename[s]'' @ [CHR 0x0A]) wd))
      else Option.bind (run_tasks (file_names (tl argv)) wd) (\<lambda>outcome.
             (case outcome of
                Inl crash \<Rightarrow> Some (Inl crash)
              | Inr wd1 \<Rightarrow> Some (Inr (wd1\<lparr>stdout := stdout wd1 @ [total_elapsed_time wd1]\<rparr>)))))"

section \<open>The convolution as the specification words it\<close>

text \<open>
  The specification's formula for one channel of the output pixel in column \<open>x\<close>, row
  \<open>y\<close>: the sum over \<open>dx, dy\<close> in \<open>{-1, 0, 1}\<close> of
  \<open>kernel[dy+1][dx+1] * source[(y+dy) mod H][(x+dx) mod W].c\<close>, with the source in row-major
  order, and the clamp to \<open>[0, 255]\<close>.
\<close>

definition spec_kernel :: "int list list" where
  "spec_kernel = [[-1, -1, -1], [-1, 8, -1], [-1, -1, -1]]"

definition spec_sum :: "channel \<Rightarrow> PPMPixel list \<Rightarrow> nat \<Rightarrow> nat \<Rightarrow> nat \<Rightarrow> nat \<Rightarrow> int" where
  "spec_sum c source W H x y =
     (\<Sum>dy\<in>{-1, 0, 1}. \<Sum>dx\<in>{-1, 0, 1}.
        spec_kernel ! nat (dy + 1) ! nat (dx + 1) *
        uint (get_channel c (source ! (nat ((int y + dy) mod int H) * W + nat ((int x + dx) mod int W)))))"

definition spec_clamp :: "int \<Rightarrow> int" where
  "spec_clamp v = max 0 (min 255 v)"

definition spec_pixel :: "PPMPixel list \<Rightarrow> nat \<Rightarrow> nat \<Rightarrow> nat \<Rightarrow> nat \<Rightarrow> PPMPixel" where
  "spec_pixel source W H x y =
     \<lparr>r = of_int (spec_clamp (spec_sum Red source W H x y)),
      g = of_int (spec_clamp (spec_sum Green source W H x y)),
      b = of_int (spec_clamp (spec_sum Blue source W H x y))\<rparr>"

section \<open>Auxiliary definitions\<close>

text \<open>
  The stores of the pixels in the columns \<open>X\<close> and rows \<open>Y\<close>, and the parameters of a single
  worker that convolves the whole image.
\<close>

definition stores_of :: "PPMPixel list \<Rightarrow> nat \<Rightarrow> nat \<Rightarrow> nat set \<Rightarrow> nat set \<Rightarrow> store set" where
  "stores_of src W H X Y =
     {(y * W + x, c, get_channel c (spec_pixel src W H x y)) | x y c. x \<in> X \<and> y \<in> Y}"

definition whole_image_param :: "PPMPixel list \<Rightarrow> PPMPixel list \<Rightarrow> nat \<Rightarrow> nat \<Rightarrow> parameter" where
  "whole_image_param img result w h =
     \<lparr>param_image = img, param_result = result, param_w = w, param_h = h,
      param_start = 0, param_size = h\<rparr>"

text \<open>
  The loops of the worker and the pixel loop of \<^verbatim>\<open>read_image\<close> written over the
  natural numbers, without the conversions between \<^verbatim>\<open>int\<close> and \<^verbatim>\<open>unsigned long\<close>, and
  the row partition written as the specification words it. They are not the model of the
  code: the proofs show for which sizes the code computes what they compute.
\<close>

function nat_filter_height_loop ::
  "parameter \<Rightarrow> nat \<Rightarrow> nat \<Rightarrow> nat \<Rightarrow> nat \<Rightarrow> int \<times> int \<times> int \<Rightarrow> int \<times> int \<times> int" where
  "nat_filter_height_loop p iw ih fw fh (red, green, blue) =
     (if fh < FILTER_HEIGHT then
        (let x_coordinate = nat ((int iw - int (FILTER_WIDTH div 2) + int fw + int (param_w p))
                                   mod int (param_w p));
             y_coordinate = nat ((int ih - int (FILTER_HEIGHT div 2) + int fh + int (param_h p))
                                   mod int (param_h p));
             px = param_image p ! (y_coordinate * param_w p + x_coordinate);
             k = laplacian ! fh ! fw
         in nat_filter_height_loop p iw ih fw (fh + 1)
              (red + uint (r px) * k, green + uint (g px) * k, blue + uint (b px) * k))
      else (red, green, blue))"
  by pat_completeness auto
termination
  by (relation "measure (\<lambda>(p, iw, ih, fw, fh, acc). FILTER_HEIGHT - fh)") auto

function nat_filter_width_loop ::
  "parameter \<Rightarrow> nat \<Rightarrow> nat \<Rightarrow> nat \<Rightarrow> int \<times> int \<times> int \<Rightarrow> int \<times> int \<times> int" where
  "nat_filter_width_loop p iw ih fw acc =
     (if fw < FILTER_WIDTH
      then nat_filter_width_loop p iw ih (fw + 1) (nat_filter_height_loop p iw ih fw 0 acc)
      else acc)"
  by pat_completeness auto
termination
  by (relation "measure (\<lambda>(p, iw, ih, fw, acc). FILTER_WIDTH - fw)") auto

definition nat_pixel_stores :: "parameter \<Rightarrow> nat \<Rightarrow> nat \<Rightarrow> store list" where
  "nat_pixel_stores p iw ih =
     channel_stores (ih * param_w p + iw) (nat_filter_width_loop p iw ih 0 (0, 0, 0))"

function nat_height_trace :: "parameter \<Rightarrow> nat \<Rightarrow> nat \<Rightarrow> store list" where
  "nat_height_trace p iw ih =
     (if ih < param_start p + param_size p
      then nat_pixel_stores p iw ih @ nat_height_trace p iw (ih + 1)
      else [])"
  by pat_completeness auto
termination
  by (relation "measure (\<lambda>(p, iw, ih). param_start p + param_size p - ih)") auto

function nat_width_trace :: "parameter \<Rightarrow> nat \<Rightarrow> store list" where
  "nat_width_trace p iw =
     (if iw < param_w p
      then nat_height_trace p iw (param_start p) @ nat_width_trace p (iw + 1)
      else [])"
  by pat_completeness auto
termination
  by (relation "measure (\<lambda>(p, iw). param_w p - iw)") auto

definition nat_worker_trace :: "parameter \<Rightarrow> store list" where
  "nat_worker_trace p = nat_width_trace p 0"

declare nat_filter_height_loop.simps [simp del] nat_filter_width_loop.simps [simp del]
  nat_height_trace.simps [simp del] nat_width_trace.simps [simp del]

definition spec_param ::
  "nat \<Rightarrow> PPMPixel list \<Rightarrow> PPMPixel list \<Rightarrow> nat \<Rightarrow> nat \<Rightarrow> nat \<Rightarrow> parameter" where
  "spec_param n img result w h i =
     \<lparr>param_image = img, param_result = result, param_w = w, param_h = h,
      param_start = i * (h div n),
      param_size = (if i = n - 1 then h - i * (h div n) else h div n)\<rparr>"

function nat_read_pixels :: "nat \<Rightarrow> nat \<Rightarrow> stream \<Rightarrow> PPMPixel list \<Rightarrow> PPMPixel list" where
  "nat_read_pixels i n s img =
     (if i < n then
        (case fread3 s of
           (None, s') \<Rightarrow> img
         | (Some (c0, c1, c2), s') \<Rightarrow>
             nat_read_pixels (i + 1) n s' (img[i := (img ! i)\<lparr>r := c0, g := c1, b := c2\<rparr>]))
      else img)"
  by pat_completeness auto
termination
  by (relation "measure (\<lambda>(i, n, s, img). n - i)") auto

declare nat_read_pixels.simps [simp del]

text \<open>Concrete inputs on which the theorems are instantiated.\<close>

definition corner_image :: "PPMPixel list" where
  "corner_image =
     [\<lparr>r = 20, g = 0, b = 0\<rparr>, \<lparr>r = 0, g = 0, b = 0\<rparr>, \<lparr>r = 0, g = 0, b = 0\<rparr>,
      \<lparr>r = 0, g = 0, b = 0\<rparr>, \<lparr>r = 0, g = 0, b = 0\<rparr>, \<lparr>r = 0, g = 0, b = 0\<rparr>,
      \<lparr>r = 0, g = 0, b = 0\<rparr>, \<lparr>r = 0, g = 0, b = 0\<rparr>, \<lparr>r = 10, g = 70, b = 0\<rparr>]"

definition corner_param :: parameter where
  "corner_param =
     \<lparr>param_image = corner_image, param_result = replicate 9 \<lparr>r = 7, g = 7, b = 7\<rparr>,
      param_w = 3, param_h = 3, param_start = 0, param_size = 3\<rparr>"

definition column_image :: "PPMPixel list" where
  "column_image = [\<lparr>r = 200, g = 10, b = 0\<rparr>, \<lparr>r = 30, g = 10, b = 255\<rparr>]"

definition stale_buffer :: "PPMPixel list" where
  "stale_buffer = [\<lparr>r = 1, g = 2, b = 3\<rparr>, \<lparr>r = 4, g = 5, b = 6\<rparr>]"

definition example_world :: world where
  "example_world =
     \<lparr>files = (\<lambda>name. None), can_write = (\<lambda>name. True), stderr = [], stdout = [],
      clock = (\<lambda>k. \<lparr>tv_sec = int k, tv_usec = 0\<rparr>), clock_calls = 0,
      uninit = (\<lambda>k. \<lparr>r = 9, g = 9, b = 9\<rparr>), total_elapsed_time = 0\<rparr>"

definition batch_world :: world where
  "batch_world =
     example_world\<lparr>files :=
       [''a.ppm'' \<mapsto> bytes_of ''P6'' @ [newline] @ bytes_of ''1 1'' @ [newline] @ bytes_of ''255''
                       @ [newline, 10, 20, 30],
        ''b.ppm'' \<mapsto> bytes_of ''P5'' @ [newline] @ bytes_of ''1 1'' @ [newline] @ bytes_of ''255''
                       @ [newline, 10, 20, 30],
        ''c.ppm'' \<mapsto> bytes_of ''P6'' @ [newline] @ bytes_of ''# two rows'' @ [newline]
                       @ bytes_of ''1 2'' @ [newline] @ bytes_of ''255''
                       @ [newline, 200, 10, 0, 30, 10, 255]]\<rparr>"

definition comment_file :: "byte list" where
  "comment_file = bytes_of ''P6'' @ [newline] @ bytes_of ''# no end of line''"

definition maxval_file :: "byte list" where
  "maxval_file = bytes_of ''P6'' @ [newline] @ bytes_of ''1 1'' @ [newline] @ bytes_of ''255''"

definition truncated_world :: world where
  "truncated_world =
     example_world\<lparr>files := [''comment.ppm'' \<mapsto> comment_file, ''maxval.ppm'' \<mapsto> maxval_file]\<rparr>"

definition pixel_at :: "stream \<Rightarrow> nat \<Rightarrow> PPMPixel" where
  "pixel_at s k = \<lparr>r = s ! (3 * k), g = s ! (3 * k + 1), b = s ! (3 * k + 2)\<rparr>"



definition marker_file :: "byte list" where
  "marker_file = bytes_of ''P6xyz'' @ [newline] @ bytes_of ''1 1'' @ [newline] @ bytes_of ''255''
                   @ [newline, 10, 20, 30]"

definition marker_world :: world where
  "marker_world = example_world\<lparr>files := [''marker.ppm'' \<mapsto> marker_file]\<rparr>"

definition readonly_world :: world where
  "readonly_world = batch_world\<lparr>can_write := (\<lambda>name. name \<noteq> ''laplacian1.ppm'')\<rparr>"

text \<open>Images whose sizes are beyond the range of \<^verbatim>\<open>int\<close>.\<close>

definition black :: PPMPixel where
  "black = \<lparr>r = 0, g = 0, b = 0\<rparr>"

definition wide_param :: parameter where
  \<comment> \<open>one row of \<open>2^31 + 1\<close> pixels, and a worker for that row\<close>
  "wide_param =
     \<lparr>param_image = replicate 2147483649 black, param_result = replicate 2147483649 black,
      param_w = 2147483649, param_h = 1, param_start = 0, param_size = 1\<rparr>"



definition large_image :: "PPMPixel list" where
  \<comment> \<open>one row of \<open>2^31 + 1\<close> pixels\<close>
  "large_image = replicate 2147483649 \<lparr>r = 255, g = 0, b = 0\<rparr>"

definition large_file :: "byte list" where
  "large_file = bytes_of ''P6'' @ [newline] @ dec 2147483649 @ [0x20] @ dec 1 @ [newline] @ dec 255
                  @ [newline] @ pixel_bytes large_image"

definition large_world :: world where
  "large_world = example_world\<lparr>files := (files example_world)(''large.ppm'' \<mapsto> large_file)\<rparr>"

text \<open>The outcome of a batch with the contents of \<^verbatim>\<open>stderr\<close> set aside.\<close>

definition forget_stderr :: "(fault \<times> world + world) option \<Rightarrow> (fault \<times> world + world) option" where
  "forget_stderr outcome =
     map_option (map_sum (\<lambda>(crash, wd). (crash, wd\<lparr>stderr := []\<rparr>)) (\<lambda>wd. wd\<lparr>stderr := []\<rparr>)) outcome"

section \<open>Properties of the row partition\<close>

lemma to_int_of_nat: "k < 2 ^ 31 \<Longrightarrow> to_int (int k) = int k"
  by (simp add: to_int_def)

lemma to_ulong_of_nat: "k < 2 ^ 64 \<Longrightarrow> to_ulong (int k) = k"
proof -
  assume "k < 2 ^ 64"
  then have "k mod 2 ^ 64 = k" by (rule mod_less)
  moreover have "int k mod 2 ^ 64 = int (k mod 2 ^ 64)"
    by (simp add: zmod_int)
  ultimately show ?thesis by (simp add: to_ulong_def)
qed

lemma in_int_of_nat: "k < 2 ^ 31 \<Longrightarrow> in_int (int k)"
  by (simp add: in_int_def)

lemma chunk_bound:
  fixes i n h :: nat
  assumes "i < n"
  shows "i * (h div n) + h div n \<le> h"
proof -
  have "Suc i * (h div n) \<le> n * (h div n)"
    using assms by (intro mult_le_mono1) simp
  also have "\<dots> \<le> h" by simp
  finally show ?thesis by simp
qed

lemma start_bound:
  fixes i n h :: nat
  assumes "i < n"
  shows "i * (h div n) \<le> h"
  using chunk_bound [OF assms, of h] by simp

lemma spec_param_fields [simp]:
  "param_image (spec_param n img res w h i) = img"
  "param_result (spec_param n img res w h i) = res"
  "param_w (spec_param n img res w h i) = w"
  "param_h (spec_param n img res w h i) = h"
  "param_start (spec_param n img res w h i) = i * (h div n)"
  "param_size (spec_param n img res w h i) = (if i = n - 1 then h - i * (h div n) else h div n)"
  by (simp_all add: spec_param_def)

lemma thread_param_refines:
  assumes "i < n" "h < 2 ^ 31"
  shows "thread_param n img res w h i = Inr (spec_param n img res w h i)"
proof -
  have le: "i * (h div n) \<le> h" by (rule start_bound [OF assms(1)])
  have h64: "h < 2 ^ 64"
    by (rule less_trans [OF assms(2)]) simp
  have "h div n < 2 ^ 31" by (rule le_less_trans [OF div_le_dividend assms(2)])
  then have c: "to_int (int (h div n)) = int (h div n)" by (rule to_int_of_nat)
  have "h div n < 2 ^ 64" by (rule le_less_trans [OF div_le_dividend h64])
  then have d: "to_ulong (int (h div n)) = h div n" by (rule to_ulong_of_nat)
  have "i * (h div n) < 2 ^ 31" by (rule le_less_trans [OF le assms(2)])
  then have "in_int (int (i * (h div n)))" by (rule in_int_of_nat)
  then have o: "in_int (int i * int (h div n))" by simp
  have "i * (h div n) < 2 ^ 64" by (rule le_less_trans [OF le h64])
  then have "to_ulong (int (i * (h div n))) = i * (h div n)" by (rule to_ulong_of_nat)
  then have s: "to_ulong (int i * int (h div n)) = i * (h div n)" by simp
  have "h - i * (h div n) < 2 ^ 64" by (rule le_less_trans [OF diff_le_self h64])
  then have "to_ulong (int (h - i * (h div n))) = h - i * (h div n)" by (rule to_ulong_of_nat)
  then have e: "to_ulong (int h - int (i * (h div n))) = h - i * (h div n)"
    using le by (simp only: of_nat_diff)
  show ?thesis
    unfolding thread_param_def Let_def c spec_param_def
    using o by (simp only: s d e if_False not_not if_True split: if_splits) simp
qed

lemma spec_param_end:
  assumes "i < n"
  shows "param_start (spec_param n img res w h i) + param_size (spec_param n img res w h i) =
           (if i = n - 1 then h else i * (h div n) + h div n)"
  using start_bound [OF assms, of h] by (cases "i = n - 1") simp_all

lemma rows_spec_param:
  assumes "i < n"
  shows "rows (spec_param n img res w h i) =
           (if i = n - 1 then {i * (h div n) ..< h} else {i * (h div n) ..< i * (h div n) + h div n})"
  unfolding rows_def spec_param_end [OF assms]
  by simp

lemma rows_disjoint:
  assumes "i < j" "j < n"
  shows "rows (spec_param n img res w h i) \<inter> rows (spec_param n img res w h j) = {}"
proof -
  have i: "i < n" "i \<noteq> n - 1" using assms by simp_all
  have "Suc i * (h div n) \<le> j * (h div n)"
    using assms(1) by (intro mult_le_mono1) simp
  then have "i * (h div n) + h div n \<le> j * (h div n)" by simp
  then show ?thesis
    using i by (auto simp: rows_spec_param [OF i(1)] rows_spec_param [OF assms(2)])
qed

lemma rows_cover:
  assumes "1 \<le> n"
  shows "(\<Union>i<n. rows (spec_param n img res w h i)) = {0..<h}"
proof (rule set_eqI, rule iffI)
  fix y assume "y \<in> (\<Union>i<n. rows (spec_param n img res w h i))"
  then obtain i where i: "i < n" "y \<in> rows (spec_param n img res w h i)" by auto
  then show "y \<in> {0..<h}"
    using chunk_bound [OF i(1), of h]
    by (auto simp: rows_spec_param [OF i(1)] split: if_splits)
next
  fix y assume y: "y \<in> {0..<h}"
  define c where "c = h div n"
  show "y \<in> (\<Union>i<n. rows (spec_param n img res w h i))"
  proof (cases "c > 0 \<and> y div c < n - 1")
    case True
    define i where "i = y div c"
    have i: "i < n" using True unfolding i_def by arith
    have "i * c \<le> y" by (simp add: i_def)
    moreover have "y < i * c + c"
      using True dividend_less_div_times [of c y] by (simp add: i_def add.commute)
    moreover have "i \<noteq> n - 1" using True unfolding i_def by arith
    ultimately have "y \<in> rows (spec_param n img res w h i)"
      unfolding rows_spec_param [OF i] c_def by simp
    then show ?thesis using i by auto
  next
    case False
    have n: "n - 1 < n" using assms(1) by simp
    have "(n - 1) * c \<le> y"
    proof (cases "c > 0")
      case True
      with False have "n - 1 \<le> y div c" by simp
      then have "(n - 1) * c \<le> (y div c) * c" by (rule mult_le_mono1)
      also have "\<dots> \<le> y" by simp
      finally show ?thesis .
    next
      case False
      then show ?thesis by simp
    qed
    then have "y \<in> rows (spec_param n img res w h (n - 1))"
      unfolding rows_spec_param [OF n] c_def using y by simp
    then show ?thesis using n by blast
  qed
qed

text \<open>
  Claim C2, for the heights that an \<^verbatim>\<open>int\<close> holds. For every worker count \<open>n \<ge> 1\<close> and
  every height \<open>h < 2^31\<close>, \<^verbatim>\<open>apply_filters\<close> builds the parameters of every worker
  without a fault; worker \<open>i\<close> starts at row \<open>i * (h div n)\<close>, every worker but the last
  takes \<open>h div n\<close> rows and the last takes \<open>h - start\<close> rows, a subtraction that does not
  wrap. The partitions start at row 0, each ends where the next one starts and the last
  ends at \<open>h\<close> (contiguous), they are pairwise disjoint, and their union is exactly
  \<open>[0, h)\<close>. When \<open>h < n\<close> every worker but the last receives an empty partition.
\<close>

theorem partition_covers_image:
  assumes "1 \<le> n" and "h < 2 ^ 31"
  shows "\<exists>ps. length ps = n
       \<and> (\<forall>i<n. thread_param n img res w h i = Inr (ps ! i))
       \<and> (\<forall>i<n. param_start (ps ! i) = i * (h div n))
       \<and> (\<forall>i<n - 1. param_size (ps ! i) = h div n)
       \<and> int (param_size (ps ! (n - 1))) = int h - int (param_start (ps ! (n - 1)))
       \<and> param_start (ps ! 0) = 0
       \<and> (\<forall>i<n - 1. param_start (ps ! i) + param_size (ps ! i) = param_start (ps ! (i + 1)))
       \<and> param_start (ps ! (n - 1)) + param_size (ps ! (n - 1)) = h
       \<and> (\<forall>i<n. \<forall>j<n. i \<noteq> j \<longrightarrow> rows (ps ! i) \<inter> rows (ps ! j) = {})
       \<and> (\<Union>i<n. rows (ps ! i)) = {0..<h}
       \<and> (h < n \<longrightarrow> (\<forall>i<n - 1. param_size (ps ! i) = 0))"
proof -
  define ps where "ps = map (spec_param n img res w h) [0..<n]"
  have nth: "ps ! i = spec_param n img res w h i" if "i < n" for i
    using that by (simp add: ps_def)
  have n: "n - 1 < n" and z: "0 < n" using assms(1) by simp_all
  have c1: "length ps = n" by (simp add: ps_def)
  have c2: "\<forall>i<n. thread_param n img res w h i = Inr (ps ! i)"
    by (simp add: nth thread_param_refines [OF _ assms(2)])
  have c3: "\<forall>i<n. param_start (ps ! i) = i * (h div n)"
    by (simp add: nth)
  have c4: "\<forall>i<n - 1. param_size (ps ! i) = h div n"
    by (simp add: nth)
  have c5: "int (param_size (ps ! (n - 1))) = int h - int (param_start (ps ! (n - 1)))"
    unfolding nth [OF n] using start_bound [OF n, of h] by simp
  have c6: "param_start (ps ! 0) = 0"
    by (simp add: nth [OF z])
  have c7: "\<forall>i<n - 1. param_start (ps ! i) + param_size (ps ! i) = param_start (ps ! (i + 1))"
    by (simp add: nth)
  have c8: "param_start (ps ! (n - 1)) + param_size (ps ! (n - 1)) = h"
    unfolding nth [OF n] using start_bound [OF n, of h] by simp
  have c9: "\<forall>i<n. \<forall>j<n. i \<noteq> j \<longrightarrow> rows (ps ! i) \<inter> rows (ps ! j) = {}"
  proof (intro allI impI)
    fix i j assume ij: "i < n" "j < n" "i \<noteq> j"
    then consider "i < j" | "j < i" by linarith
    then show "rows (ps ! i) \<inter> rows (ps ! j) = {}"
    proof cases
      case 1
      then show ?thesis
        unfolding nth [OF ij(1)] nth [OF ij(2)] by (rule rows_disjoint [OF _ ij(2)])
    next
      case 2
      then show ?thesis
        unfolding nth [OF ij(1)] nth [OF ij(2)]
        using rows_disjoint [OF 2 ij(1), of img res w h] by blast
    qed
  qed
  have "(\<Union>i<n. rows (ps ! i)) = (\<Union>i<n. rows (spec_param n img res w h i))"
    by (simp add: nth)
  then have c10: "(\<Union>i<n. rows (ps ! i)) = {0..<h}"
    by (simp only: rows_cover [OF assms(1)])
  have c11: "h < n \<longrightarrow> (\<forall>i<n - 1. param_size (ps ! i) = 0)"
    by (simp add: nth)
  show ?thesis
    using c1 c2 c3 c4 c5 c6 c7 c8 c9 c10 c11 by blast
qed

theorem partition_covers_image_witness:
  "(1::nat) \<le> 23 \<and> (5::nat) < 2 ^ 31
   \<and> (\<exists>p. thread_param 23 [] [] 3 5 7 = Inr p \<and> param_start p = 0 \<and> param_size p = 0)
   \<and> (\<exists>p. thread_param 23 [] [] 3 5 22 = Inr p \<and> param_start p = 0 \<and> param_size p = 5
          \<and> rows p = {0..<5})"
proof -
  have h1: "(1::nat) \<le> 23" and h2: "(5::nat) < 2 ^ 31" by simp_all
  from partition_covers_image [OF h1 h2, of "[]" "[]" 3]
  obtain ps where ps:
    "\<forall>i<23. thread_param 23 [] [] 3 5 i = Inr (ps ! i)"
    "\<forall>i<23. param_start (ps ! i) = i * (5 div 23)"
    "\<forall>i<23 - 1. param_size (ps ! i) = 5 div 23"
    "param_start (ps ! (23 - 1)) + param_size (ps ! (23 - 1)) = 5"
    by (elim exE conjE) (rule that)
  have t7: "thread_param 23 [] [] 3 5 7 = Inr (ps ! 7)"
    using ps(1) [rule_format, of 7] by simp
  have s7: "param_start (ps ! 7) = 0"
    using ps(2) [rule_format, of 7] by simp
  have z7: "param_size (ps ! 7) = 0"
    using ps(3) [rule_format, of 7] by simp
  have t22: "thread_param 23 [] [] 3 5 22 = Inr (ps ! 22)"
    using ps(1) [rule_format, of 22] by simp
  have s22: "param_start (ps ! 22) = 0"
    using ps(2) [rule_format, of 22] by simp
  have z22: "param_size (ps ! 22) = 5"
    using ps(4) s22 by simp
  have r22: "rows (ps ! 22) = {0..<5}"
    by (simp add: rows_def s22 z22)
  have e7: "\<exists>p. thread_param 23 [] [] 3 5 7 = Inr p \<and> param_start p = 0 \<and> param_size p = 0"
    using t7 s7 z7 by blast
  have e22: "\<exists>p. thread_param 23 [] [] 3 5 22 = Inr p \<and> param_start p = 0 \<and> param_size p = 5
          \<and> rows p = {0..<5}"
    using t22 s22 z22 r22 by blast
  show ?thesis
    by (intro conjI h1 h2 e7 e22)
qed

text \<open>
  Claim C2 as it is stated, for every height: a counterexample. For an image of
  \<open>23 * 2^31\<close> rows and 23 workers the quotient \<open>2^31\<close> does not fit \<^verbatim>\<open>int work\<close>: it
  becomes \<open>-2^31\<close>, and worker 0 receives \<open>2^64 - 2^31\<close> rows, which is not \<open>h div n\<close>
  and reaches beyond the last row of the image.
\<close>

theorem partition_height_counterexample:
  "thread_param 23 [] [] 1 49392123904 0
     = Inr \<lparr>param_image = [], param_result = [], param_w = 1, param_h = 49392123904,
            param_start = 0, param_size = 18446744071562067968\<rparr>
   \<and> (49392123904::nat) div 23 = 2147483648
   \<and> 49392123904 \<in> rows \<lparr>param_image = [], param_result = [], param_w = 1, param_h = 49392123904,
                          param_start = 0, param_size = 18446744071562067968\<rparr>"
  by (simp add: thread_param_def Let_def to_int_def to_ulong_def in_int_def rows_def)

section \<open>Properties of the convolution\<close>

lemma truncate_channel_clamp: "truncate_channel v = spec_clamp v"
  by (simp add: truncate_channel_def spec_clamp_def)

lemma one_plus_int: "1 + int k = int k + 1" by simp

lemma filter_loops_spec_sum:
  "nat_filter_width_loop p x y 0 (0, 0, 0) =
     (spec_sum Red (param_image p) (param_w p) (param_h p) x y,
      spec_sum Green (param_image p) (param_w p) (param_h p) x y,
      spec_sum Blue (param_image p) (param_w p) (param_h p) x y)"
  apply (simp add: nat_filter_width_loop.simps nat_filter_height_loop.simps FILTER_HEIGHT_def
        FILTER_WIDTH_def Let_def spec_sum_def laplacian_def spec_kernel_def)
  apply (simp only: one_plus_int)
  apply (simp)
  done

lemma get_channel_spec_pixel:
  "get_channel c (spec_pixel src W H x y) = of_int (spec_clamp (spec_sum c src W H x y))"
  by (cases c) (simp_all add: spec_pixel_def)

lemma pixel_stores_spec:
  "nat_pixel_stores p x y =
     map (\<lambda>c. (y * param_w p + x, c,
                get_channel c (spec_pixel (param_image p) (param_w p) (param_h p) x y)))
         [Red, Green, Blue]"
  unfolding nat_pixel_stores_def filter_loops_spec_sum
  by (simp add: channel_stores_def truncate_channel_clamp get_channel_spec_pixel)

lemma channel_UNIV: "(UNIV :: channel set) = {Red, Green, Blue}"
proof (rule UNIV_eq_I)
  fix c :: channel
  show "c \<in> {Red, Green, Blue}" by (cases c) simp_all
qed

lemma set_pixel_stores:
  "set (nat_pixel_stores p x y) = stores_of (param_image p) (param_w p) (param_h p) {x} {y}"
proof -
  have "set (nat_pixel_stores p x y) =
          (\<lambda>c. (y * param_w p + x, c,
                get_channel c (spec_pixel (param_image p) (param_w p) (param_h p) x y))) ` UNIV"
    unfolding pixel_stores_spec set_map channel_UNIV by simp
  also have "\<dots> = stores_of (param_image p) (param_w p) (param_h p) {x} {y}"
    unfolding stores_of_def by auto
  finally show ?thesis .
qed

lemma stores_of_union_rows:
  "stores_of src W H X Y1 \<union> stores_of src W H X Y2 = stores_of src W H X (Y1 \<union> Y2)"
  unfolding stores_of_def by blast

lemma stores_of_union_cols:
  "stores_of src W H X1 Y \<union> stores_of src W H X2 Y = stores_of src W H (X1 \<union> X2) Y"
  unfolding stores_of_def by blast

lemma stores_of_empty [simp]:
  "stores_of src W H {} Y = {}" "stores_of src W H X {} = {}"
  unfolding stores_of_def by simp_all

lemma set_height_trace:
  "set (nat_height_trace p x y) =
     stores_of (param_image p) (param_w p) (param_h p) {x} {y ..< param_start p + param_size p}"
proof (induction p x y rule: nat_height_trace.induct)
  case (1 p iw ih)
  show ?case
  proof (cases "ih < param_start p + param_size p")
    case True
    have "{ih ..< param_start p + param_size p} = {ih} \<union> {ih + 1 ..< param_start p + param_size p}"
      using True by auto
    then show ?thesis
      using True "1.IH" [OF True]
      by (subst nat_height_trace.simps) (simp add: set_pixel_stores stores_of_union_rows)
  next
    case False
    then show ?thesis by (subst nat_height_trace.simps) simp
  qed
qed

lemma set_width_trace:
  "set (nat_width_trace p x) =
     stores_of (param_image p) (param_w p) (param_h p) {x ..< param_w p} (rows p)"
proof (induction p x rule: nat_width_trace.induct)
  case (1 p iw)
  show ?case
  proof (cases "iw < param_w p")
    case True
    have "{iw ..< param_w p} = {iw} \<union> {iw + 1 ..< param_w p}"
      using True by auto
    then show ?thesis
      using True "1.IH" [OF True]
      by (subst nat_width_trace.simps) (simp add: set_height_trace stores_of_union_cols rows_def)
  next
    case False
    then show ?thesis by (subst nat_width_trace.simps) simp
  qed
qed

lemma set_worker_trace:
  "set (nat_worker_trace p) = stores_of (param_image p) (param_w p) (param_h p) {0 ..< param_w p} (rows p)"
  by (simp add: nat_worker_trace_def set_width_trace)

lemma PPMPixel_eqI:
  fixes p q :: PPMPixel
  assumes "\<And>c. get_channel c p = get_channel c q"
  shows "p = q"
  using assms [of Red] assms [of Green] assms [of Blue] by simp

lemma length_apply_store [simp]: "length (apply_store s res) = length res"
  by (cases s) simp

lemma length_fold_apply_store [simp]: "length (fold apply_store ws res) = length res"
  by (induction ws arbitrary: res) simp_all

lemma get_channel_set_channel:
  "get_channel c (set_channel d v px) = (if c = d then v else get_channel c px)"
  by (cases c; cases d) simp_all

lemma get_channel_apply_store:
  assumes "i < length res"
  shows "get_channel c (apply_store (j, d, v) res ! i) =
           (if i = j \<and> c = d then v else get_channel c (res ! i))"
proof (cases "i = j")
  case True
  then show ?thesis using assms by (simp add: get_channel_set_channel)
next
  case False
  then show ?thesis by simp
qed

lemma fold_apply_store_nth:
  assumes "\<forall>(j, d, v) \<in> set ws. v = F j d" and "i < length res"
  shows "get_channel c (fold apply_store ws res ! i) =
           (if \<exists>v. (i, c, v) \<in> set ws then F i c else get_channel c (res ! i))"
  using assms
proof (induction ws arbitrary: res)
  case Nil
  then show ?case by simp
next
  case (Cons s ws)
  obtain j d v where s: "s = (j, d, v)" by (cases s)
  have v: "v = F j d" using Cons.prems(1) s by simp
  have rest: "\<forall>(j, d, v) \<in> set ws. v = F j d" using Cons.prems(1) by simp
  have len: "i < length (apply_store s res)" using Cons.prems(2) by simp
  have "get_channel c (fold apply_store (s # ws) res ! i) =
          (if \<exists>v. (i, c, v) \<in> set ws then F i c else get_channel c (apply_store s res ! i))"
    using Cons.IH [OF rest len] by simp
  also have "\<dots> = (if \<exists>v. (i, c, v) \<in> set (s # ws) then F i c else get_channel c (res ! i))"
    using Cons.prems(2) v by (auto simp: s get_channel_apply_store simp del: apply_store.simps)
  finally show ?case .
qed

lemma stores_of_value:
  assumes "(j, d, v) \<in> stores_of src W H {0..<W} Y"
  shows "v = get_channel d (spec_pixel src W H (j mod W) (j div W))"
proof -
  obtain x y where "j = y * W + x" "x < W" "v = get_channel d (spec_pixel src W H x y)"
    using assms unfolding stores_of_def by auto
  then show ?thesis by simp
qed

lemma stores_of_written:
  assumes "x < W" "y \<in> Y"
  shows "\<exists>v. (y * W + x, c, v) \<in> stores_of src W H {0..<W} Y"
  using assms unfolding stores_of_def by auto

lemma fold_stores_nth:
  assumes ws: "set ws = stores_of src W H {0..<W} Y"
      and x: "x < W" and y: "y \<in> Y" and len: "y * W + x < length res"
  shows "fold apply_store ws res ! (y * W + x) = spec_pixel src W H x y"
proof (rule PPMPixel_eqI)
  fix c
  have f: "\<forall>(j, d, v) \<in> set ws. v = get_channel d (spec_pixel src W H (j mod W) (j div W))"
    unfolding ws using stores_of_value by blast
  have "\<exists>v. (y * W + x, c, v) \<in> set ws"
    unfolding ws by (rule stores_of_written [OF x y])
  then have "get_channel c (fold apply_store ws res ! (y * W + x)) =
               get_channel c (spec_pixel src W H ((y * W + x) mod W) ((y * W + x) div W))"
    using fold_apply_store_nth [OF f len, of c] by simp
  then show "get_channel c (fold apply_store ws res ! (y * W + x)) =
               get_channel c (spec_pixel src W H x y)"
    using x by simp
qed

lemma fold_stores_whole:
  assumes ws: "set ws = stores_of src W H {0..<W} {0..<H}" and len: "length res = W * H"
  shows "fold apply_store ws res = map (\<lambda>i. spec_pixel src W H (i mod W) (i div W)) [0..<W * H]"
proof (rule nth_equalityI)
  show "length (fold apply_store ws res) =
          length (map (\<lambda>i. spec_pixel src W H (i mod W) (i div W)) [0..<W * H])"
    using len by simp
next
  fix i assume "i < length (fold apply_store ws res)"
  then have i: "i < W * H" using len by simp
  then have W: "0 < W" by (cases W) simp_all
  have x: "i mod W < W" using W by simp
  have y: "i div W \<in> {0..<H}"
    using i by (simp add: less_mult_imp_div_less mult.commute)
  have eq: "i div W * W + i mod W = i" by simp
  have "fold apply_store ws res ! (i div W * W + i mod W) = spec_pixel src W H (i mod W) (i div W)"
    by (rule fold_stores_nth [OF ws x y]) (simp add: len i)
  then show "fold apply_store ws res ! i =
               map (\<lambda>i. spec_pixel src W H (i mod W) (i div W)) [0..<W * H] ! i"
    using i by (simp add: eq)
qed

lemma spec_clamp_range: "0 \<le> spec_clamp v" "spec_clamp v \<le> 255"
  by (simp_all add: spec_clamp_def)

lemma uint_of_clamp: "uint (of_int (spec_clamp v) :: byte) = spec_clamp v"
proof -
  have "spec_clamp v < 2 ^ 8" using spec_clamp_range(2) [of v] by simp
  then show ?thesis
    using spec_clamp_range(1) [of v] by (simp add: uint_word_of_int)
qed

lemma nat_mod_less:
  fixes w :: nat
  assumes "0 < w"
  shows "nat (c mod int w) < w"
proof -
  have "0 \<le> c mod int w" "c mod int w < int w" using assms by simp_all
  then show ?thesis by linarith
qed

lemma neighbour_in_image:
  fixes w h :: nat
  assumes "0 < w" "0 < h"
  shows "nat (a mod int h) * w + nat (c mod int w) < w * h"
proof -
  have x: "nat (c mod int w) < w" by (rule nat_mod_less [OF assms(1)])
  have "nat (a mod int h) < h" by (rule nat_mod_less [OF assms(2)])
  then have "Suc (nat (a mod int h)) \<le> h" by simp
  then have "Suc (nat (a mod int h)) * w \<le> h * w" by (rule mult_le_mono1)
  then show ?thesis using x by (simp add: mult.commute)
qed

lemma fold_worker_trace_nth:
  assumes "x < param_w p" and "y \<in> rows p"
      and "y * param_w p + x < length (param_result p)"
  shows "fold apply_store (nat_worker_trace p) (param_result p) ! (y * param_w p + x) =
           spec_pixel (param_image p) (param_w p) (param_h p) x y"
  by (rule fold_stores_nth [OF set_worker_trace assms])

lemma wrap_coordinate_nat:
  assumes "x < n" "n < 2 ^ 31" "k < 3"
  shows "wrap_coordinate (int x) 1 k n = Inr (int (nat ((int x - 1 + int k + int n) mod int n)))"
proof -
  define v where "v = int x - 1 + int k"
  have v: "- 1 \<le> v" "v \<le> int n" using assms by (simp_all add: v_def)
  have n: "int n < 2 ^ 31" using assms(2) by simp
  have o1: "in_int (int x - int 1)" using assms(1) n by (simp add: in_int_def)
  have o2: "in_int (int x - int 1 + int k)" using v n by (simp add: in_int_def v_def)
  have "(v mod 2 ^ 64 + int n) mod 2 ^ 64 = (v + int n) mod 2 ^ 64"
    by (rule mod_add_left_eq)
  also have "\<dots> = v + int n" using v n assms(1) by simp
  finally have s: "to_ulong (int (to_ulong v) + int n) = nat (v + int n)"
    by (simp add: to_ulong_def)
  have nn: "0 \<le> v + int n" using v assms(1) by simp
  have m: "int (nat (v + int n) mod n) = (v + int n) mod int n"
    using nn by (simp add: zmod_int)
  have m0: "0 \<le> (v + int n) mod int n" "(v + int n) mod int n < int n"
    using assms(1) by simp_all
  have t: "to_int ((v + int n) mod int n) = (v + int n) mod int n"
    using m0 n by (simp add: to_int_def)
  have "wrap_coordinate (int x) 1 k n = Inr (to_int (int (to_ulong (int (to_ulong v) + int n) mod n)))"
    using o1 o2 assms(1) by (simp add: wrap_coordinate_def v_def)
  also have "\<dots> = Inr ((v + int n) mod int n)"
    by (simp only: s m t)
  also have "\<dots> = Inr (int (nat ((int x - 1 + int k + int n) mod int n)))"
    using m0 by (simp add: v_def)
  finally show ?thesis .
qed

lemma neighbour_index:
  fixes w h :: nat
  assumes "0 < w" "w < 2 ^ 31" "0 < h" "h < 2 ^ 31"
  shows "to_ulong (int (nat (a mod int h)) * int w + int (nat (c mod int w)))
           = nat (a mod int h) * w + nat (c mod int w)"
proof -
  have "nat (a mod int h) * w + nat (c mod int w) < w * h"
    by (rule neighbour_in_image [OF assms(1,3)])
  also have "w * h < 2 ^ 31 * 2 ^ 31"
    by (rule mult_strict_mono [OF assms(2,4)]) simp_all
  also have "\<dots> < (2 ^ 64 :: nat)" by simp
  finally have "to_ulong (int (nat (a mod int h) * w + nat (c mod int w)))
                  = nat (a mod int h) * w + nat (c mod int w)"
    by (rule to_ulong_of_nat)
  then show ?thesis by (simp only: of_nat_add of_nat_mult)
qed

lemma filter_height_loop_nat:
  assumes "param_w p < 2 ^ 31" "param_h p < 2 ^ 31"
      and "length (param_image p) = param_w p * param_h p"
      and "x < param_w p" "y < param_h p" "fw < 3"
  shows "filter_height_loop p (int x) (int y) fw fh acc = Inr (nat_filter_height_loop p x y fw fh acc)"
  using assms
proof (induction p x y fw fh acc rule: nat_filter_height_loop.induct)
  case (1 p iw ih fw fh red green blue)
  show ?case
  proof (cases "fh < FILTER_HEIGHT")
    case False
    then show ?thesis
      by (subst filter_height_loop.simps, subst nat_filter_height_loop.simps) simp
  next
    case True
    then have fh: "fh < 3" by (simp add: FILTER_HEIGHT_def)
    have w: "0 < param_w p" and h: "0 < param_h p" using "1.prems" by simp_all
    have wx: "wrap_coordinate (int iw) (FILTER_WIDTH div 2) fw (param_w p) =
                Inr (int (nat ((int iw - int (FILTER_WIDTH div 2) + int fw + int (param_w p))
                                   mod int (param_w p))))"
      using wrap_coordinate_nat [OF "1.prems"(4) "1.prems"(1) "1.prems"(6)]
      by (simp add: FILTER_WIDTH_def)
    have wy: "wrap_coordinate (int ih) (FILTER_HEIGHT div 2) fh (param_h p) =
                Inr (int (nat ((int ih - int (FILTER_HEIGHT div 2) + int fh + int (param_h p))
                                   mod int (param_h p))))"
      using wrap_coordinate_nat [OF "1.prems"(5) "1.prems"(2) fh]
      by (simp add: FILTER_HEIGHT_def)
    note idx = neighbour_index [OF w "1.prems"(1) h "1.prems"(2)]
    have inb: "\<not> length (param_image p) \<le> nat (a mod int (param_h p)) * param_w p
                  + nat (c mod int (param_w p))" for a c
      unfolding "1.prems"(3) not_le by (rule neighbour_in_image [OF w h])
    note IH = "1.IH" [OF True refl refl refl refl "1.prems"]
    show ?thesis
      apply (subst filter_height_loop.simps)
      apply (subst nat_filter_height_loop.simps)
      apply (simp only: True if_True wx wy sum.case Let_def idx inb if_False IH)
      done
  qed
qed

lemma filter_width_loop_nat:
  assumes "param_w p < 2 ^ 31" "param_h p < 2 ^ 31"
      and "length (param_image p) = param_w p * param_h p"
      and "x < param_w p" "y < param_h p"
  shows "filter_width_loop p (int x) (int y) fw acc = Inr (nat_filter_width_loop p x y fw acc)"
  using assms
proof (induction p x y fw acc rule: nat_filter_width_loop.induct)
  case (1 p iw ih fw acc)
  show ?case
  proof (cases "fw < FILTER_WIDTH")
    case False
    then show ?thesis
      by (subst filter_width_loop.simps, subst nat_filter_width_loop.simps) simp
  next
    case True
    then have fw: "fw < 3" by (simp add: FILTER_WIDTH_def)
    note inner = filter_height_loop_nat [OF "1.prems" fw]
    note IH = "1.IH" [OF True "1.prems"]
    show ?thesis
      apply (subst filter_width_loop.simps)
      apply (subst nat_filter_width_loop.simps)
      apply (simp only: True if_True inner sum.case IH)
      done
  qed
qed

lemma height_loop_nat:
  assumes "param_w p < 2 ^ 31" "param_h p < 2 ^ 31"
      and "length (param_image p) = param_w p * param_h p"
      and "param_start p + param_size p \<le> param_h p"
      and "x < param_w p" "y \<le> param_start p + param_size p"
      and "length res = param_w p * param_h p"
  shows "height_loop p (int x) (int y) (tr, res) =
           Inr (tr @ nat_height_trace p x y, fold apply_store (nat_height_trace p x y) res)"
  using assms
proof (induction p x y arbitrary: tr res rule: nat_height_trace.induct)
  case (1 p iw ih)
  have h64: "param_h p < 2 ^ 64" by (rule less_trans [OF "1.prems"(2)]) simp
  have "ih < 2 ^ 64" by (rule le_less_trans [OF le_trans [OF "1.prems"(6,4)] h64])
  then have c1: "to_ulong (int ih) = ih" by (rule to_ulong_of_nat)
  have "param_start p + param_size p < 2 ^ 64" by (rule le_less_trans [OF "1.prems"(4) h64])
  then have "to_ulong (int (param_start p + param_size p)) = param_start p + param_size p"
    by (rule to_ulong_of_nat)
  then have c2: "to_ulong (int (param_start p) + int (param_size p)) = param_start p + param_size p"
    by (simp only: of_nat_add)
  show ?case
  proof (cases "ih < param_start p + param_size p")
    case False
    then show ?thesis
      by (subst height_loop.simps) (simp add: nat_height_trace.simps [of p iw ih] c1 c2)
  next
    case True
    have y: "ih < param_h p" using True "1.prems"(4) by simp
    note inner = filter_width_loop_nat [OF "1.prems"(1,2,3,5) y]
    have "Suc ih \<le> param_h p" using y by simp
    then have "Suc ih * param_w p \<le> param_h p * param_w p" by (rule mult_le_mono1)
    then have lt: "ih * param_w p + iw < param_w p * param_h p"
      using "1.prems"(5) by (simp add: mult.commute)
    also have "param_w p * param_h p < 2 ^ 31 * 2 ^ 31"
      using "1.prems"(5) y by (intro mult_strict_mono "1.prems"(1,2)) simp_all
    also have "\<dots> < (2 ^ 64 :: nat)" by simp
    finally have "to_ulong (int (ih * param_w p + iw)) = ih * param_w p + iw"
      by (rule to_ulong_of_nat)
    then have idx: "to_ulong (int ih * int (param_w p) + int iw) = ih * param_w p + iw"
      by (simp only: of_nat_add of_nat_mult)
    have inb: "\<not> length res \<le> ih * param_w p + iw" using lt "1.prems"(7) by simp
    have "ih + 1 < 2 ^ 31" using y "1.prems"(2) by simp
    then have "in_int (int (ih + 1))" by (rule in_int_of_nat)
    then have ov: "in_int (int ih + 1)" by (simp add: add.commute)
    have next_y: "ih + 1 \<le> param_start p + param_size p" using True by simp
    have len: "length (fold apply_store ws res) = param_w p * param_h p" for ws
      using "1.prems"(7) by simp
    note IH = "1.IH" [OF True "1.prems"(1,2,3,4,5) next_y len]
    have i1: "int ih + 1 = int (ih + 1)" by simp
    show ?thesis
      apply (subst height_loop.simps)
      apply (simp only: nat_height_trace.simps [of p iw ih])
      apply (simp only: c1 c2 True if_True inner sum.case Let_def idx inb if_False ov not_True_eq_False)
      apply (simp only: i1 IH nat_pixel_stores_def)
      apply simp
      done
  qed
qed

lemma width_loop_nat:
  assumes "param_w p < 2 ^ 31" "param_h p < 2 ^ 31"
      and "length (param_image p) = param_w p * param_h p"
      and "param_start p + param_size p \<le> param_h p"
      and "x \<le> param_w p"
      and "length res = param_w p * param_h p"
  shows "width_loop p (int x) (tr, res) =
           Inr (tr @ nat_width_trace p x, fold apply_store (nat_width_trace p x) res)"
  using assms
proof (induction p x arbitrary: tr res rule: nat_width_trace.induct)
  case (1 p iw)
  have "iw < 2 ^ 64" by (rule le_less_trans [OF "1.prems"(5) less_trans [OF "1.prems"(1)]]) simp
  then have c1: "to_ulong (int iw) = iw" by (rule to_ulong_of_nat)
  show ?case
  proof (cases "iw < param_w p")
    case False
    then show ?thesis
      by (subst width_loop.simps) (simp add: nat_width_trace.simps [of p iw] c1)
  next
    case True
    have "param_start p < 2 ^ 31"
      using "1.prems"(2,4) by simp
    then have st: "to_int (int (param_start p)) = int (param_start p)" by (rule to_int_of_nat)
    have le: "param_start p \<le> param_start p + param_size p" by simp
    note inner = height_loop_nat [OF "1.prems"(1,2,3,4) True le]
    have "iw + 1 < 2 ^ 31" using True "1.prems"(1) by simp
    then have "in_int (int (iw + 1))" by (rule in_int_of_nat)
    then have ov: "in_int (int iw + 1)" by (simp add: add.commute)
    have next_x: "iw + 1 \<le> param_w p" using True by simp
    have len: "length (fold apply_store ws res) = param_w p * param_h p" for ws
      using "1.prems"(6) by simp
    note IH = "1.IH" [OF True "1.prems"(1,2,3,4) next_x len]
    have i1: "int iw + 1 = int (iw + 1)" by simp
    show ?thesis
      apply (subst width_loop.simps)
      apply (simp only: nat_width_trace.simps [of p iw])
      apply (simp only: c1 True if_True st inner [OF "1.prems"(6)] sum.case ov not_True_eq_False if_False)
      apply (simp only: i1 IH)
      apply simp
      done
  qed
qed

lemma compute_laplacian_threadfn_nat:
  assumes "param_w p < 2 ^ 31" "param_h p < 2 ^ 31"
      and "length (param_image p) = param_w p * param_h p"
      and "length (param_result p) = param_w p * param_h p"
      and "param_start p + param_size p \<le> param_h p"
  shows "compute_laplacian_threadfn p =
           Inr (nat_worker_trace p, fold apply_store (nat_worker_trace p) (param_result p))"
  unfolding compute_laplacian_threadfn_def nat_worker_trace_def
  using width_loop_nat [OF assms(1,2,3,5) _ assms(4), of 0 "[]"] by simp

text \<open>
  Claim C1, for the sizes that an \<^verbatim>\<open>int\<close> holds. For a source image of positive width
  \<open>W < 2^31\<close> and height \<open>H < 2^31\<close>, a column \<open>x < W\<close> and a row \<open>y\<close> in the range
  assigned to the worker (a range inside the image), the worker returns without a fault,
  and it stores into each channel \<open>c\<close> of \<open>result[y * W + x]\<close> the specification's sum
  over the 3 by 3 neighbourhood, with the fixed kernel, clamped to \<open>[0, 255]\<close>: the store is
  in the list of its stores and the value is in the buffer when it returns. The neighbour
  indices are taken modulo \<open>H\<close> and \<open>W\<close> and every one of them is the index of a pixel of
  the source: no neighbour is skipped or replaced by zero.
\<close>

theorem worker_stores_convolution:
  assumes "0 < param_w p" and "param_w p < 2 ^ 31" and "0 < param_h p" and "param_h p < 2 ^ 31"
      and "length (param_image p) = param_w p * param_h p"
      and "length (param_result p) = param_w p * param_h p"
      and "param_start p + param_size p \<le> param_h p"
      and "x < param_w p" and "param_start p \<le> y" and "y < param_start p + param_size p"
  shows "\<exists>tr res. compute_laplacian_threadfn p = Inr (tr, res)
       \<and> (\<forall>c. (y * param_w p + x, c,
                 of_int (spec_clamp (spec_sum c (param_image p) (param_w p) (param_h p) x y)))
                \<in> set tr)
       \<and> (\<forall>c. uint (get_channel c (res ! (y * param_w p + x)))
              = spec_clamp (spec_sum c (param_image p) (param_w p) (param_h p) x y))
       \<and> (\<forall>dy\<in>{-1, 0, 1}. \<forall>dx\<in>{-1, 0, 1}.
             nat ((int y + dy) mod int (param_h p)) * param_w p
               + nat ((int x + dx) mod int (param_w p)) < length (param_image p))"
proof -
  define tr where "tr = nat_worker_trace p"
  define res where "res = fold apply_store (nat_worker_trace p) (param_result p)"
  have run: "compute_laplacian_threadfn p = Inr (tr, res)"
    unfolding tr_def res_def by (rule compute_laplacian_threadfn_nat [OF assms(2,4,5,6,7)])
  have y: "y \<in> rows p" using assms(9,10) by (simp add: rows_def)
  have st: "(y * param_w p + x, c,
              of_int (spec_clamp (spec_sum c (param_image p) (param_w p) (param_h p) x y)))
             \<in> set tr" for c
    unfolding tr_def set_worker_trace stores_of_def
    using assms(8) y by (auto simp: get_channel_spec_pixel)
  have "Suc y \<le> param_h p" using assms(7,10) by simp
  then have "Suc y * param_w p \<le> param_h p * param_w p" by (rule mult_le_mono1)
  then have "y * param_w p + x < length (param_result p)"
    using assms(6,8) by (simp add: mult.commute)
  then have "res ! (y * param_w p + x) = spec_pixel (param_image p) (param_w p) (param_h p) x y"
    unfolding res_def by (rule fold_worker_trace_nth [OF assms(8) y])
  then have val: "uint (get_channel c (res ! (y * param_w p + x)))
              = spec_clamp (spec_sum c (param_image p) (param_w p) (param_h p) x y)" for c
    by (simp add: get_channel_spec_pixel uint_of_clamp)
  have nb: "\<forall>dy\<in>{-1, 0, 1}. \<forall>dx\<in>{-1, 0, 1}.
             nat ((int y + dy) mod int (param_h p)) * param_w p
               + nat ((int x + dx) mod int (param_w p)) < length (param_image p)"
    unfolding assms(5) by (intro ballI neighbour_in_image [OF assms(1,3)])
  show ?thesis
    using run st val nb by blast
qed

theorem worker_stores_convolution_witness:
  "0 < param_w corner_param \<and> param_w corner_param < 2 ^ 31
   \<and> 0 < param_h corner_param \<and> param_h corner_param < 2 ^ 31
   \<and> length (param_image corner_param) = param_w corner_param * param_h corner_param
   \<and> length (param_result corner_param) = param_w corner_param * param_h corner_param
   \<and> param_start corner_param + param_size corner_param \<le> param_h corner_param
   \<and> (0::nat) < param_w corner_param \<and> param_start corner_param \<le> 0
   \<and> 0 < param_start corner_param + param_size corner_param
   \<and> (\<exists>tr res. compute_laplacian_threadfn corner_param = Inr (tr, res)
         \<and> (0, Red, 150) \<in> set tr
         \<and> uint (get_channel Red (res ! 0)) = 150
         \<and> uint (get_channel Green (res ! 0)) = 0)"
proof -
  have h: "0 < param_w corner_param" "param_w corner_param < 2 ^ 31"
      "0 < param_h corner_param" "param_h corner_param < 2 ^ 31"
      "length (param_image corner_param) = param_w corner_param * param_h corner_param"
      "length (param_result corner_param) = param_w corner_param * param_h corner_param"
      "param_start corner_param + param_size corner_param \<le> param_h corner_param"
      "(0::nat) < param_w corner_param" "param_start corner_param \<le> 0"
      "0 < param_start corner_param + param_size corner_param"
    by (simp_all add: corner_param_def corner_image_def)
  have red: "spec_clamp (spec_sum Red (param_image corner_param) (param_w corner_param)
                (param_h corner_param) 0 0) = 150"
    by (simp add: corner_param_def corner_image_def spec_sum_def spec_kernel_def spec_clamp_def)
  have green: "spec_clamp (spec_sum Green (param_image corner_param) (param_w corner_param)
                (param_h corner_param) 0 0) = 0"
    by (simp add: corner_param_def corner_image_def spec_sum_def spec_kernel_def spec_clamp_def)
  from worker_stores_convolution [OF h]
  obtain tr res where run: "compute_laplacian_threadfn corner_param = Inr (tr, res)"
    and st: "\<forall>c. (0 * param_w corner_param + 0, c,
                 of_int (spec_clamp (spec_sum c (param_image corner_param) (param_w corner_param)
                    (param_h corner_param) 0 0))) \<in> set tr"
    and val: "\<forall>c. uint (get_channel c (res ! (0 * param_w corner_param + 0)))
              = spec_clamp (spec_sum c (param_image corner_param) (param_w corner_param)
                    (param_h corner_param) 0 0)"
    by (elim exE conjE) (rule that)
  have s1: "(0, Red, 150) \<in> set tr"
    using st [rule_format, of Red] unfolding red by simp
  have v1: "uint (get_channel Red (res ! 0)) = 150"
    using val [rule_format, of Red] unfolding red by simp
  have v2: "uint (get_channel Green (res ! 0)) = 0"
    using val [rule_format, of Green] unfolding green by simp
  have e: "\<exists>tr res. compute_laplacian_threadfn corner_param = Inr (tr, res)
         \<and> (0, Red, 150) \<in> set tr
         \<and> uint (get_channel Red (res ! 0)) = 150
         \<and> uint (get_channel Green (res ! 0)) = 0"
    using run s1 v1 v2 by blast
  show ?thesis
    by (intro conjI h e)
qed

lemma wide_row_fault:
  assumes "param_w p = 2147483649" and "param_h p = 1"
      and "length (param_image p) = 2147483649"
      and "param_start p = 0" and "param_size p = 1"
  shows "compute_laplacian_threadfn p = Inl OutOfBounds"
proof -
  have x: "wrap_coordinate 0 (FILTER_WIDTH div 2) 0 2147483649 = Inr (- 2147483648)"
    by (simp add: wrap_coordinate_def in_int_def to_int_def to_ulong_def FILTER_WIDTH_def)
  have y: "wrap_coordinate 0 (FILTER_HEIGHT div 2) 0 1 = Inr 0"
    by (simp add: wrap_coordinate_def in_int_def to_int_def to_ulong_def FILTER_HEIGHT_def)
  have idx: "to_ulong (0 * int 2147483649 + - 2147483648) = 18446744071562067968"
    by (simp add: to_ulong_def)
  have f1: "filter_height_loop p 0 0 0 0 (0, 0, 0) = Inl OutOfBounds"
    by (subst filter_height_loop.simps)
       (simp only: assms x y idx sum.case Let_def, simp add: FILTER_HEIGHT_def)
  have f2: "filter_width_loop p 0 0 0 (0, 0, 0) = Inl OutOfBounds"
    by (subst filter_width_loop.simps) (simp add: f1 FILTER_WIDTH_def)
  have f3: "height_loop p 0 0 ([], param_result p) = Inl OutOfBounds"
    by (subst height_loop.simps) (simp add: f2 assms to_ulong_def)
  show ?thesis
    unfolding compute_laplacian_threadfn_def
    by (subst width_loop.simps) (simp add: f3 assms to_ulong_def to_int_def)
qed

text \<open>
  Claim C1 as it is stated, for every positive width: a counterexample. For one row of
  \<open>2^31 + 1\<close> pixels the left neighbour of column 0 is column \<open>2^31\<close>; the remainder
  is stored in \<^verbatim>\<open>int x_coordinate\<close>, where it becomes \<open>-2^31\<close>, and the index of the
  pixel read is \<open>2^64 - 2^31\<close>, which is outside the image: the worker has no defined
  result.
\<close>

theorem worker_wide_row_counterexample:
  "0 < param_w wide_param \<and> 0 < param_h wide_param
   \<and> length (param_image wide_param) = param_w wide_param * param_h wide_param
   \<and> length (param_result wide_param) = param_w wide_param * param_h wide_param
   \<and> param_start wide_param + param_size wide_param \<le> param_h wide_param
   \<and> compute_laplacian_threadfn wide_param = Inl OutOfBounds"
proof -
  have "compute_laplacian_threadfn wide_param = Inl OutOfBounds"
    by (rule wide_row_fault) (simp_all add: wide_param_def)
  then show ?thesis by (simp add: wide_param_def)
qed

lemma rows_spec_param_indep:
  "rows (spec_param n img res w h i) = rows (spec_param n img' res' w' h i)"
  by (simp add: rows_def)

lemma stores_of_UN:
  "(\<Union>i\<in>I. stores_of src W H X (Y i)) = stores_of src W H X (\<Union>i\<in>I. Y i)"
  unfolding stores_of_def by blast

lemma set_thread_trace:
  "set (nat_worker_trace (spec_param n img res w h i)) =
     stores_of img w h {0..<w} (rows (spec_param n img [] w h i))"
  unfolding set_worker_trace spec_param_fields(1,3,4)
  by (simp only: rows_spec_param_indep [of n img res w h i img "[]" w])

lemma spec_param_inside:
  assumes "i < n"
  shows "param_start (spec_param n img res w h i) + param_size (spec_param n img res w h i) \<le> h"
  unfolding spec_param_end [OF assms] using chunk_bound [OF assms, of h] by simp

lemma thread_run:
  assumes "i < n" "w < 2 ^ 31" "h < 2 ^ 31" "length img = w * h" "length res = w * h"
  shows "thread_param n img res w h i = Inr (spec_param n img res w h i)"
    and "compute_laplacian_threadfn (spec_param n img res w h i) =
           Inr (nat_worker_trace (spec_param n img res w h i),
                fold apply_store (nat_worker_trace (spec_param n img res w h i)) res)"
proof -
  show "thread_param n img res w h i = Inr (spec_param n img res w h i)"
    by (rule thread_param_refines [OF assms(1,3)])
  have "compute_laplacian_threadfn (spec_param n img res w h i) =
           Inr (nat_worker_trace (spec_param n img res w h i),
                fold apply_store (nat_worker_trace (spec_param n img res w h i))
                  (param_result (spec_param n img res w h i)))"
    by (rule compute_laplacian_threadfn_nat)
       (simp_all only: spec_param_fields(1,2,3,4) assms spec_param_inside [OF assms(1)])
  then show "compute_laplacian_threadfn (spec_param n img res w h i) =
           Inr (nat_worker_trace (spec_param n img res w h i),
                fold apply_store (nat_worker_trace (spec_param n img res w h i)) res)"
    by (simp only: spec_param_fields(2))
qed

lemma threads_fold_stores:
  assumes "w < 2 ^ 31" "h < 2 ^ 31" "length img = w * h" "length result = w * h"
      and "\<forall>j\<in>set js. j < n"
  shows "\<exists>T. fold (\<lambda>i outcome.
             (case outcome of
                Inl f \<Rightarrow> Inl f
              | Inr res \<Rightarrow>
                  (case thread_param n img res w h i of
                     Inl f \<Rightarrow> Inl f
                   | Inr p \<Rightarrow>
                       (case compute_laplacian_threadfn p of
                          Inl f \<Rightarrow> Inl f
                        | Inr (tr, res') \<Rightarrow> Inr res')))) js (Inr result)
         = Inr (fold apply_store T result)
       \<and> set T = (\<Union>i\<in>set js. stores_of img w h {0..<w} (rows (spec_param n img [] w h i)))"
  using assms(4,5)
proof (induction js arbitrary: result)
  case Nil
  show ?case by (intro exI [of _ "[]"]) simp
next
  case (Cons j js)
  have j: "j < n" using Cons.prems(2) by simp
  have js: "\<forall>j\<in>set js. j < n" using Cons.prems(2) by simp
  define T1 where "T1 = nat_worker_trace (spec_param n img result w h j)"
  define res1 where "res1 = fold apply_store T1 result"
  have len1: "length res1 = w * h" using Cons.prems(1) by (simp add: res1_def)
  note run = thread_run [OF j assms(1,2,3) Cons.prems(1)]
  obtain T2 where T2:
    "fold (\<lambda>i outcome.
             (case outcome of
                Inl f \<Rightarrow> Inl f
              | Inr res \<Rightarrow>
                  (case thread_param n img res w h i of
                     Inl f \<Rightarrow> Inl f
                   | Inr p \<Rightarrow>
                       (case compute_laplacian_threadfn p of
                          Inl f \<Rightarrow> Inl f
                        | Inr (tr, res') \<Rightarrow> Inr res')))) js (Inr res1)
       = Inr (fold apply_store T2 res1)"
    "set T2 = (\<Union>i\<in>set js. stores_of img w h {0..<w} (rows (spec_param n img [] w h i)))"
    using Cons.IH [OF len1 js] by blast
  have "fold (\<lambda>i outcome.
             (case outcome of
                Inl f \<Rightarrow> Inl f
              | Inr res \<Rightarrow>
                  (case thread_param n img res w h i of
                     Inl f \<Rightarrow> Inl f
                   | Inr p \<Rightarrow>
                       (case compute_laplacian_threadfn p of
                          Inl f \<Rightarrow> Inl f
                        | Inr (tr, res') \<Rightarrow> Inr res')))) (j # js) (Inr result)
          = Inr (fold apply_store (T1 @ T2) result)"
    by (simp add: run T2(1) [unfolded res1_def T1_def] T1_def)
  moreover have "set (T1 @ T2) =
      (\<Union>i\<in>set (j # js). stores_of img w h {0..<w} (rows (spec_param n img [] w h i)))"
    using T2(2) by (simp add: T1_def set_thread_trace)
  ultimately show ?case by blast
qed

lemma Union_list_update:
  assumes "i < length ts" "ts ! i = s # rest"
  shows "insert s (\<Union>(set ` set (ts[i := rest]))) = \<Union>(set ` set ts)"
proof (rule set_eqI, rule iffI)
  fix a assume "a \<in> insert s (\<Union>(set ` set (ts[i := rest])))"
  then consider "a = s" | t where "t \<in> set (ts[i := rest])" "a \<in> set t" by auto
  then show "a \<in> \<Union>(set ` set ts)"
  proof cases
    case 1
    then have "a \<in> set (ts ! i)" using assms(2) by simp
    moreover have "ts ! i \<in> set ts" using assms(1) by simp
    ultimately show ?thesis by blast
  next
    case 2
    then have "t = rest \<or> t \<in> set ts"
      using set_update_subset_insert [of ts i rest] by auto
    then show ?thesis
    proof
      assume "t = rest"
      then have "a \<in> set (ts ! i)" using 2(2) assms(2) by simp
      moreover have "ts ! i \<in> set ts" using assms(1) by simp
      ultimately show ?thesis by blast
    next
      assume "t \<in> set ts"
      then show ?thesis using 2(2) by auto
    qed
  qed
next
  fix a assume "a \<in> \<Union>(set ` set ts)"
  then obtain t where "t \<in> set ts" "a \<in> set t" by blast
  then obtain j where j: "j < length ts" "a \<in> set (ts ! j)"
    unfolding in_set_conv_nth [of t ts] by blast
  show "a \<in> insert s (\<Union>(set ` set (ts[i := rest])))"
  proof (cases "j = i")
    case True
    then have "a = s \<or> a \<in> set rest" using j(2) assms(2) by simp
    moreover have "rest \<in> set (ts[i := rest])"
      using assms(1) by (simp add: set_update_memI)
    ultimately show ?thesis by auto
  next
    case False
    then have "ts[i := rest] ! j = ts ! j" by simp
    moreover have "j < length (ts[i := rest])" using j(1) by simp
    ultimately have "ts ! j \<in> set (ts[i := rest])" by (metis nth_mem)
    then show ?thesis using j(2) by auto
  qed
qed

lemma schedule_run_stores:
  "\<exists>T. snd (schedule_run sch ts res) = fold apply_store T res
       \<and> set T \<union> \<Union>(set ` set (fst (schedule_run sch ts res))) = \<Union>(set ` set ts)"
proof (induction sch ts res rule: schedule_run.induct)
  case (1 ts res)
  have "snd (schedule_run [] ts res) = fold apply_store [] res
       \<and> set ([] :: store list) \<union> \<Union>(set ` set (fst (schedule_run [] ts res))) = \<Union>(set ` set ts)"
    by simp
  then show ?case by blast
next
  case (2 i sch ts res)
  show ?case
  proof (cases "i < length ts")
    case False
    then show ?thesis using "2.IH"(3) by simp
  next
    case True
    show ?thesis
    proof (cases "ts ! i")
      case Nil
      then show ?thesis using True "2.IH"(1) by simp
    next
      case (Cons s rest)
      obtain T where T:
        "snd (schedule_run sch (ts[i := rest]) (apply_store s res)) = fold apply_store T (apply_store s res)"
        "set T \<union> \<Union>(set ` set (fst (schedule_run sch (ts[i := rest]) (apply_store s res))))
           = \<Union>(set ` set (ts[i := rest]))"
        using "2.IH"(2) [OF True Cons] by blast
      have run: "schedule_run (i # sch) ts res = schedule_run sch (ts[i := rest]) (apply_store s res)"
        using True Cons by simp
      have "snd (schedule_run (i # sch) ts res) = fold apply_store (s # T) res"
        unfolding run T(1) by simp
      moreover have "set (s # T) \<union> \<Union>(set ` set (fst (schedule_run (i # sch) ts res)))
                       = \<Union>(set ` set ts)"
        unfolding run using T(2) Union_list_update [OF True Cons] by auto
      ultimately show ?thesis by blast
    qed
  qed
qed

lemma pixel_stores_indep:
  "nat_pixel_stores (p\<lparr>param_result := res\<rparr>) x y = nat_pixel_stores p x y"
  by (simp add: pixel_stores_spec)

lemma height_trace_indep:
  "nat_height_trace (p\<lparr>param_result := res\<rparr>) x y = nat_height_trace p x y"
proof (induction p x y rule: nat_height_trace.induct)
  case (1 p iw ih)
  show ?case
  proof (cases "ih < param_start p + param_size p")
    case True
    then show ?thesis
      using "1.IH" [OF True]
      by (subst nat_height_trace.simps, subst (2) nat_height_trace.simps) (simp add: pixel_stores_indep)
  next
    case False
    then show ?thesis
      by (subst nat_height_trace.simps, subst (2) nat_height_trace.simps) simp
  qed
qed

lemma width_trace_indep:
  "nat_width_trace (p\<lparr>param_result := res\<rparr>) x = nat_width_trace p x"
proof (induction p x rule: nat_width_trace.induct)
  case (1 p iw)
  show ?case
  proof (cases "iw < param_w p")
    case True
    then show ?thesis
      using "1.IH" [OF True]
      by (subst nat_width_trace.simps, subst (2) nat_width_trace.simps) (simp add: height_trace_indep)
  next
    case False
    then show ?thesis
      by (subst nat_width_trace.simps, subst (2) nat_width_trace.simps) simp
  qed
qed


lemma spec_param_result:
  "spec_param n img res w h i = (spec_param n img [] w h i)\<lparr>param_result := res\<rparr>"
  by (simp add: spec_param_def)

lemma worker_trace_spec_param:
  "nat_worker_trace (spec_param n img res w h i) = nat_worker_trace (spec_param n img [] w h i)"
  unfolding nat_worker_trace_def
  by (subst spec_param_result) (rule width_trace_indep)

lemma whole_image_pass:
  assumes "w < 2 ^ 31" "h < 2 ^ 31" "length img = w * h" "length result = w * h"
  shows "compute_laplacian_threadfn (whole_image_param img result w h) =
           Inr (nat_worker_trace (whole_image_param img result w h),
                map (\<lambda>i. spec_pixel img w h (i mod w) (i div w)) [0..<w * h])"
proof -
  have s: "set (nat_worker_trace (whole_image_param img result w h)) = stores_of img w h {0..<w} {0..<h}"
    by (simp add: set_worker_trace whole_image_param_def rows_def)
  have "compute_laplacian_threadfn (whole_image_param img result w h) =
          Inr (nat_worker_trace (whole_image_param img result w h),
               fold apply_store (nat_worker_trace (whole_image_param img result w h))
                 (param_result (whole_image_param img result w h)))"
    using assms by (intro compute_laplacian_threadfn_nat) (simp_all add: whole_image_param_def)
  moreover have "param_result (whole_image_param img result w h) = result"
    by (simp add: whole_image_param_def)
  ultimately show ?thesis
    using fold_stores_whole [OF s assms(4)] by simp
qed

lemma stores_of_threads:
  assumes "1 \<le> n"
  shows "(\<Union>i\<in>set [0..<n]. stores_of img w h {0..<w} (rows (spec_param n img [] w h i)))
           = stores_of img w h {0..<w} {0..<h}"
proof -
  have "(\<Union>i\<in>set [0..<n]. rows (spec_param n img [] w h i)) = {0..<h}"
    using rows_cover [OF assms, of img "[]" w h] by (simp add: lessThan_atLeast0)
  then show ?thesis by (simp only: stores_of_UN)
qed

lemma run_threads_pass:
  assumes "1 \<le> n" "w < 2 ^ 31" "h < 2 ^ 31" "length img = w * h" "length result = w * h"
  shows "run_threads n img w h result =
           Inr (map (\<lambda>i. spec_pixel img w h (i mod w) (i div w)) [0..<w * h])"
proof -
  have js: "\<forall>j\<in>set [0..<n]. j < n" by simp
  obtain T where T: "run_threads n img w h result = Inr (fold apply_store T result)"
    "set T = (\<Union>i\<in>set [0..<n]. stores_of img w h {0..<w} (rows (spec_param n img [] w h i)))"
    unfolding run_threads_def using threads_fold_stores [OF assms(2,3,4,5) js] by blast
  have "set T = stores_of img w h {0..<w} {0..<h}"
    unfolding T(2) by (rule stores_of_threads [OF assms(1)])
  then show ?thesis
    unfolding T(1) by (simp only: fold_stores_whole [OF _ assms(5)])
qed

lemma collect_traces_threads:
  assumes "w < 2 ^ 31" "h < 2 ^ 31" "length img = w * h" "length result = w * h"
      and "\<forall>j\<in>set js. j < n"
  shows "collect_traces (map (thread_param n img result w h) js) =
           Inr (map (\<lambda>i. nat_worker_trace (spec_param n img [] w h i)) js)"
  using assms(5)
proof (induction js)
  case Nil
  show ?case by simp
next
  case (Cons j js)
  have j: "j < n" using Cons.prems by simp
  have js: "\<forall>j\<in>set js. j < n" using Cons.prems by simp
  note run = thread_run [OF j assms(1,2,3,4)]
  show ?case
    by (simp add: run Cons.IH [OF js] worker_trace_spec_param [of n img result w h j])
qed

lemma thread_traces_nat:
  assumes "w < 2 ^ 31" "h < 2 ^ 31" "length img = w * h" "length result = w * h"
  shows "thread_traces n img result w h =
           Inr (map (\<lambda>i. nat_worker_trace (spec_param n img [] w h i)) [0..<n])"
  unfolding thread_traces_def
  by (rule collect_traces_threads [OF assms]) simp

lemma schedule_run_pass:
  assumes "1 \<le> n" "length result = w * h"
      and ts: "ts = map (\<lambda>i. nat_worker_trace (spec_param n img [] w h i)) [0..<n]"
      and fin: "\<forall>t\<in>set (fst (schedule_run sch ts result)). t = []"
  shows "snd (schedule_run sch ts result) =
           map (\<lambda>i. spec_pixel img w h (i mod w) (i div w)) [0..<w * h]"
proof -
  obtain T where T:
    "snd (schedule_run sch ts result) = fold apply_store T result"
    "set T \<union> \<Union>(set ` set (fst (schedule_run sch ts result))) = \<Union>(set ` set ts)"
    using schedule_run_stores [of sch ts result] by blast
  have e: "\<Union>(set ` set (fst (schedule_run sch ts result))) = {}"
    using fin by auto
  have "set T = \<Union>(set ` set ts)"
    using T(2) unfolding e by simp
  also have "\<dots> = (\<Union>i\<in>set [0..<n]. stores_of img w h {0..<w} (rows (spec_param n img [] w h i)))"
    by (simp add: ts set_thread_trace)
  also have "\<dots> = stores_of img w h {0..<w} {0..<h}"
    by (rule stores_of_threads [OF assms(1)])
  finally show ?thesis
    unfolding T(1) by (rule fold_stores_whole [OF _ assms(2)])
qed

lemma pixel_count_bound:
  fixes w h :: nat
  assumes "w < 2 ^ 31" "h < 2 ^ 31"
  shows "w * h * 3 < 2 ^ 64"
proof -
  have "w * h \<le> 2 ^ 31 * 2 ^ 31"
    using assms by (intro mult_mono) simp_all
  then have "w * h * 3 \<le> 2 ^ 31 * 2 ^ 31 * 3" by (rule mult_le_mono1)
  also have "\<dots> < (2 ^ 64 :: nat)" by simp
  finally show ?thesis .
qed

lemma length_malloc_pixels:
  assumes "w * h * 3 < 2 ^ 64"
  shows "length (malloc_pixels wd (to_ulong (int (w * h * 3)))) = w * h"
  unfolding to_ulong_of_nat [OF assms] by (simp add: malloc_pixels_def)

lemma apply_filters_pass:
  assumes "w < 2 ^ 31" "h < 2 ^ 31" "length img = w * h"
  shows "\<exists>wd'. apply_filters img w h wd =
           Inr (map (\<lambda>i. spec_pixel img w h (i mod w) (i div w)) [0..<w * h], wd')"
proof -
  have n: "1 \<le> LAPLACIAN_THREADS" by (simp add: LAPLACIAN_THREADS_def)
  obtain start wd1 where g1: "gettimeofday wd = (start, wd1)" by (cases "gettimeofday wd")
  obtain fin wd2 where g2: "gettimeofday wd1 = (fin, wd2)" by (cases "gettimeofday wd1")
  note len = length_malloc_pixels [OF pixel_count_bound [OF assms(1,2)], of wd1]
  show ?thesis
    unfolding apply_filters_def g1 prod.case run_threads_pass [OF n assms len] sum.case g2
    by blast
qed

lemma interleaved_schedule_completes:
  "fst (schedule_run [1, 0, 0, 1, 1, 0]
          (map (\<lambda>i. nat_worker_trace (spec_param 2 column_image [] 1 2 i)) [0..<2]) stale_buffer)
     = [[], []]"
  by code_simp

text \<open>
  Claim C3, for the sizes that an \<^verbatim>\<open>int\<close> holds. For an image of width and height below
  \<open>2^31\<close> and any number \<open>n \<ge> 1\<close> of workers, the partitioned pass returns without a
  fault, and the buffer it leaves is the buffer left by one worker that convolves the whole
  image, which is the convolution as the specification words it, whatever the buffers held
  before: when the threads run one after the other, when their stores are interleaved by
  any schedule that lets every thread finish, and for \<^verbatim>\<open>apply_filters\<close> itself. Every
  thread's effect on the buffer is the effect of its list of stores.
\<close>

theorem parallel_pass_equals_sequential_pass:
  assumes "1 \<le> n" and "w < 2 ^ 31" and "h < 2 ^ 31"
      and "length img = w * h" and "length result = w * h" and "length result' = w * h"
  shows "\<exists>out ts. run_threads n img w h result = Inr out
       \<and> (\<exists>tr. compute_laplacian_threadfn (whole_image_param img result' w h) = Inr (tr, out))
       \<and> out = map (\<lambda>i. spec_pixel img w h (i mod w) (i div w)) [0..<w * h]
       \<and> thread_traces n img result w h = Inr ts
       \<and> (\<forall>sch. (\<forall>t\<in>set (fst (schedule_run sch ts result)). t = []) \<longrightarrow>
             snd (schedule_run sch ts result) = out)
       \<and> (\<forall>i<n. \<forall>res. length res = w * h \<longrightarrow>
             (\<exists>p. thread_param n img res w h i = Inr p
                \<and> compute_laplacian_threadfn p = Inr (ts ! i, fold apply_store (ts ! i) res)))
       \<and> (\<exists>wd'. apply_filters img w h wd = Inr (out, wd'))"
proof -
  define out where "out = map (\<lambda>i. spec_pixel img w h (i mod w) (i div w)) [0..<w * h]"
  define ts where "ts = map (\<lambda>i. nat_worker_trace (spec_param n img [] w h i)) [0..<n]"
  have c1: "run_threads n img w h result = Inr out"
    unfolding out_def by (rule run_threads_pass [OF assms(1,2,3,4,5)])
  have c2: "\<exists>tr. compute_laplacian_threadfn (whole_image_param img result' w h) = Inr (tr, out)"
    unfolding out_def whole_image_pass [OF assms(2,3,4,6)] by blast
  have c4: "thread_traces n img result w h = Inr ts"
    unfolding ts_def by (rule thread_traces_nat [OF assms(2,3,4,5)])
  have c5: "\<forall>sch. (\<forall>t\<in>set (fst (schedule_run sch ts result)). t = []) \<longrightarrow>
             snd (schedule_run sch ts result) = out"
    unfolding out_def using schedule_run_pass [OF assms(1,5) ts_def] by blast
  have c6: "\<forall>i<n. \<forall>res. length res = w * h \<longrightarrow>
             (\<exists>p. thread_param n img res w h i = Inr p
                \<and> compute_laplacian_threadfn p = Inr (ts ! i, fold apply_store (ts ! i) res))"
  proof (intro allI impI)
    fix i and res :: "PPMPixel list"
    assume i: "i < n" and len: "length res = w * h"
    have nth: "ts ! i = nat_worker_trace (spec_param n img res w h i)"
      using i by (simp add: ts_def worker_trace_spec_param [of n img res w h i])
    show "\<exists>p. thread_param n img res w h i = Inr p
                \<and> compute_laplacian_threadfn p = Inr (ts ! i, fold apply_store (ts ! i) res)"
      unfolding nth using thread_run [OF i assms(2,3,4) len] by blast
  qed
  have c7: "\<exists>wd'. apply_filters img w h wd = Inr (out, wd')"
    unfolding out_def by (rule apply_filters_pass [OF assms(2,3,4)])
  show ?thesis
    using c1 c2 out_def c4 c5 c6 c7 by blast
qed

theorem parallel_pass_equals_sequential_pass_witness:
  "(1::nat) \<le> 2 \<and> (1::nat) < 2 ^ 31 \<and> (2::nat) < 2 ^ 31
   \<and> length column_image = 1 * 2 \<and> length stale_buffer = 1 * 2
   \<and> length (replicate 2 black) = 1 * 2
   \<and> (\<exists>out ts. run_threads 2 column_image 1 2 stale_buffer = Inr out
          \<and> (\<exists>tr. compute_laplacian_threadfn
                     (whole_image_param column_image (replicate 2 black) 1 2) = Inr (tr, out))
          \<and> thread_traces 2 column_image stale_buffer 1 2 = Inr ts
          \<and> fst (schedule_run [1, 0, 0, 1, 1, 0] ts stale_buffer) = [[], []]
          \<and> snd (schedule_run [1, 0, 0, 1, 1, 0] ts stale_buffer) = out
          \<and> (\<exists>wd'. apply_filters column_image 1 2 example_world = Inr (out, wd')))"
proof -
  have h1: "(1::nat) \<le> 2" and h2: "(1::nat) < 2 ^ 31" and h3: "(2::nat) < 2 ^ 31" by simp_all
  have h4: "length column_image = 1 * 2" by (simp add: column_image_def)
  have h5: "length stale_buffer = 1 * 2" by (simp add: stale_buffer_def)
  have h6: "length (replicate 2 black) = 1 * 2" by simp
  from parallel_pass_equals_sequential_pass [OF h1 h2 h3 h4 h5 h6, of example_world]
  obtain out ts where c1: "run_threads 2 column_image 1 2 stale_buffer = Inr out"
    and c2: "\<exists>tr. compute_laplacian_threadfn
                     (whole_image_param column_image (replicate 2 black) 1 2) = Inr (tr, out)"
    and c4: "thread_traces 2 column_image stale_buffer 1 2 = Inr ts"
    and c5: "\<forall>sch. (\<forall>t\<in>set (fst (schedule_run sch ts stale_buffer)). t = []) \<longrightarrow>
             snd (schedule_run sch ts stale_buffer) = out"
    and c7: "\<exists>wd'. apply_filters column_image 1 2 example_world = Inr (out, wd')"
    by (elim exE conjE) (rule that; (assumption | (rule exI, assumption)))
  have "thread_traces 2 column_image stale_buffer 1 2 =
          Inr (map (\<lambda>i. nat_worker_trace (spec_param 2 column_image [] 1 2 i)) [0..<2])"
    by (rule thread_traces_nat [OF h2 h3 h4 h5])
  then have ts: "ts = map (\<lambda>i. nat_worker_trace (spec_param 2 column_image [] 1 2 i)) [0..<2]"
    using c4 by simp
  have fin: "fst (schedule_run [1, 0, 0, 1, 1, 0] ts stale_buffer) = [[], []]"
    unfolding ts by (rule interleaved_schedule_completes)
  then have "\<forall>t\<in>set (fst (schedule_run [1, 0, 0, 1, 1, 0] ts stale_buffer)). t = []"
    by simp
  then have sched: "snd (schedule_run [1, 0, 0, 1, 1, 0] ts stale_buffer) = out"
    using c5 by blast
  have e: "\<exists>out ts. run_threads 2 column_image 1 2 stale_buffer = Inr out
          \<and> (\<exists>tr. compute_laplacian_threadfn
                     (whole_image_param column_image (replicate 2 black) 1 2) = Inr (tr, out))
          \<and> thread_traces 2 column_image stale_buffer 1 2 = Inr ts
          \<and> fst (schedule_run [1, 0, 0, 1, 1, 0] ts stale_buffer) = [[], []]
          \<and> snd (schedule_run [1, 0, 0, 1, 1, 0] ts stale_buffer) = out
          \<and> (\<exists>wd'. apply_filters column_image 1 2 example_world = Inr (out, wd'))"
    using c1 c2 c4 fin sched c7 by blast
  show ?thesis
    by (intro conjI h1 h2 h3 h4 h5 h6 e)
qed

lemma wide_rows_fault:
  assumes "param_w p = 2147483649" and "param_h p = 23"
      and "length (param_image p) = 2147483649 * 23"
      and "param_start p = 0" and "param_size p = 1"
  shows "compute_laplacian_threadfn p = Inl OutOfBounds"
proof -
  have x: "wrap_coordinate 0 (FILTER_WIDTH div 2) 0 2147483649 = Inr (- 2147483648)"
    by (simp add: wrap_coordinate_def in_int_def to_int_def to_ulong_def FILTER_WIDTH_def)
  have y0: "wrap_coordinate 0 (FILTER_HEIGHT div 2) 0 23 = Inr 22"
    by (simp add: wrap_coordinate_def in_int_def to_int_def to_ulong_def FILTER_HEIGHT_def)
  have y1: "wrap_coordinate 0 (FILTER_HEIGHT div 2) (0 + 1) 23 = Inr 0"
    by (simp add: wrap_coordinate_def in_int_def to_int_def to_ulong_def FILTER_HEIGHT_def)
  have idx0: "to_ulong (22 * int 2147483649 + - 2147483648) = 45097156630"
    by (simp add: to_ulong_def)
  have idx1: "to_ulong (0 * int 2147483649 + - 2147483648) = 18446744071562067968"
    by (simp add: to_ulong_def)
  have len: "length (param_image p) = 49392123927" using assms(3) by simp
  have f0: "filter_height_loop p 0 0 0 (0 + 1) (a, c, d) = Inl OutOfBounds" for a c d
    by (subst filter_height_loop.simps)
       (simp only: assms(1,2) len x y1 idx1 sum.case Let_def, simp add: FILTER_HEIGHT_def)
  have f1: "filter_height_loop p 0 0 0 0 (0, 0, 0) = Inl OutOfBounds"
    by (subst filter_height_loop.simps)
       (simp only: assms(1,2) len x y0 idx0 sum.case Let_def f0, simp add: FILTER_HEIGHT_def)
  have f2: "filter_width_loop p 0 0 0 (0, 0, 0) = Inl OutOfBounds"
    by (subst filter_width_loop.simps) (simp add: f1 FILTER_WIDTH_def)
  have f3: "height_loop p 0 0 ([], param_result p) = Inl OutOfBounds"
    by (subst height_loop.simps) (simp add: f2 assms to_ulong_def)
  show ?thesis
    unfolding compute_laplacian_threadfn_def
    by (subst width_loop.simps) (simp add: f3 assms to_ulong_def to_int_def)
qed

lemma fold_fault:
  "fold (\<lambda>i outcome.
             (case outcome of
                Inl f \<Rightarrow> Inl f
              | Inr res \<Rightarrow> F i res)) js (Inl f) = Inl f"
  by (induction js) simp_all

lemma wide_pass_fault:
  assumes "length img = 2147483649 * 23"
  shows "run_threads 23 img 2147483649 23 result = Inl OutOfBounds"
proof -
  define p where "p = \<lparr>param_image = img, param_result = result, param_w = 2147483649,
                        param_h = 23, param_start = 0, param_size = 1\<rparr>"
  have tp: "thread_param 23 img result 2147483649 23 0 = Inr p"
    by (simp add: thread_param_def Let_def to_int_def to_ulong_def in_int_def p_def)
  have run: "compute_laplacian_threadfn p = Inl OutOfBounds"
    by (rule wide_rows_fault) (simp_all add: p_def assms)
  have l: "[0..<23] = 0 # [1..<23]" by (simp add: upt_conv_Cons)
  show ?thesis
    unfolding run_threads_def l
    by (simp only: fold_simps sum.case tp run fold_fault)
qed

text \<open>
  Claim C3 as it is stated, for every source image: a counterexample. For an image of
  23 rows of \<open>2^31 + 1\<close> pixels the first of the 23 workers reads outside the image (the
  left neighbour of column 0, narrowed to \<^verbatim>\<open>int\<close>), so the parallel pass has no defined
  output; the convolution as the specification words it is defined for every image.
\<close>

theorem parallel_pass_wide_image_counterexample:
  "length (replicate (2147483649 * 23) black) = 2147483649 * 23
   \<and> run_threads 23 (replicate (2147483649 * 23) black) 2147483649 23
        (replicate (2147483649 * 23) black) = Inl OutOfBounds"
  using wide_pass_fault [of "replicate (2147483649 * 23) black" "replicate (2147483649 * 23) black"]
  by (simp only: length_replicate simp_thms)

lemma spec_pixel_uniform:
  assumes "0 < w" "0 < h"
  shows "spec_pixel (replicate (w * h) px) w h x y = \<lparr>r = 0, g = 0, b = 0\<rparr>"
proof -
  have "spec_sum c (replicate (w * h) px) w h x y = 0" for c
    unfolding spec_sum_def
    by (simp add: neighbour_in_image [OF assms] spec_kernel_def)
  then show ?thesis by (simp add: spec_pixel_def spec_clamp_def)
qed

text \<open>
  Claim C4, for the sizes that an \<^verbatim>\<open>int\<close> holds. For an image of positive width and
  height, both below \<open>2^31\<close>, whose pixels all have the same value, \<^verbatim>\<open>apply_filters\<close>
  returns an image whose pixels are all \<open>(0, 0, 0)\<close>.
\<close>

theorem uniform_image_gives_zero:
  assumes "0 < w" and "w < 2 ^ 31" and "0 < h" and "h < 2 ^ 31"
  shows "\<exists>wd'. apply_filters (replicate (w * h) px) w h wd
                 = Inr (replicate (w * h) \<lparr>r = 0, g = 0, b = 0\<rparr>, wd')"
proof -
  have len: "length (replicate (w * h) px) = w * h" by simp
  have "map (\<lambda>i. spec_pixel (replicate (w * h) px) w h (i mod w) (i div w)) [0..<w * h]
          = replicate (w * h) \<lparr>r = 0, g = 0, b = 0\<rparr>"
    by (rule nth_equalityI) (simp_all add: spec_pixel_uniform [OF assms(1,3)])
  then show ?thesis
    using apply_filters_pass [OF assms(2,4) len, of wd] by simp
qed

theorem uniform_image_gives_zero_witness:
  "(0::nat) < 2 \<and> (2::nat) < 2 ^ 31 \<and> (0::nat) < 1 \<and> (1::nat) < 2 ^ 31
   \<and> (\<exists>wd'. apply_filters (replicate (2 * 2) \<lparr>r = 255, g = 0, b = 0\<rparr>) 2 2 example_world
               = Inr (replicate (2 * 2) \<lparr>r = 0, g = 0, b = 0\<rparr>, wd'))
   \<and> (\<exists>wd'. apply_filters (replicate (1 * 1) \<lparr>r = 12, g = 34, b = 56\<rparr>) 1 1 example_world
               = Inr (replicate (1 * 1) \<lparr>r = 0, g = 0, b = 0\<rparr>, wd'))"
proof -
  have h: "(0::nat) < 2" "(2::nat) < 2 ^ 31" "(0::nat) < 1" "(1::nat) < 2 ^ 31" by simp_all
  note a = uniform_image_gives_zero [OF h(1,2,1,2), of "\<lparr>r = 255, g = 0, b = 0\<rparr>" example_world]
  note b = uniform_image_gives_zero [OF h(3,4,3,4), of "\<lparr>r = 12, g = 34, b = 56\<rparr>" example_world]
  show ?thesis
    by (intro conjI h a b)
qed

text \<open>
  Claim C4 as it is stated, for any positive width and height: a counterexample. For the
  image of 23 rows of \<open>2^31 + 1\<close> pixels that are all \<open>(255, 0, 0)\<close>, \<^verbatim>\<open>apply_filters\<close>
  reads outside the image and returns no image.
\<close>

theorem uniform_wide_image_counterexample:
  "apply_filters (replicate (2147483649 * 23) \<lparr>r = 255, g = 0, b = 0\<rparr>) 2147483649 23 example_world
     = Inl (OutOfBounds, example_world\<lparr>clock_calls := 1\<rparr>)"
proof -
  have len: "length (replicate (2147483649 * 23) \<lparr>r = 255, g = 0, b = 0\<rparr>) = 2147483649 * 23"
    by (simp only: length_replicate)
  have g: "gettimeofday example_world
             = (\<lparr>tv_sec = 0, tv_usec = 0\<rparr>, example_world\<lparr>clock_calls := 1\<rparr>)"
    by (simp add: gettimeofday_def example_world_def)
  show ?thesis
    unfolding apply_filters_def g prod.case LAPLACIAN_THREADS_def wide_pass_fault [OF len] sum.case
    by (rule refl)
qed

section \<open>Properties of decoding and encoding\<close>

lemma skip_line_Some_newline:
  assumes "skip_line s = Some y"
  shows "newline \<in> set s"
proof (rule skip_line.raw_induct [where P = "\<lambda>s y. newline \<in> set s", OF _ assms])
  fix skip :: "stream \<Rightarrow> stream option" and s y
  assume IH: "\<And>x y. skip x = Some y \<Longrightarrow> newline \<in> set x"
    and step: "(case getc s of (x, s') \<Rightarrow> if x = Some newline then Some s' else skip s') = Some y"
  show "newline \<in> set s"
  proof (cases s)
    case Nil
    then have "skip [] = Some y" using step by simp
    then have "newline \<in> set ([] :: byte list)" by (rule IH)
    then show ?thesis by simp
  next
    case (Cons c cs)
    show ?thesis
    proof (cases "c = newline")
      case True
      then show ?thesis using Cons by simp
    next
      case False
      then have "skip cs = Some y" using step Cons by simp
      then have "newline \<in> set cs" by (rule IH)
      then show ?thesis using Cons by simp
    qed
  qed
qed

lemma skip_line_no_newline:
  assumes "newline \<notin> set s"
  shows "skip_line s = None"
proof (cases "skip_line s")
  case None
  then show ?thesis .
next
  case (Some y)
  then have "newline \<in> set s" by (rule skip_line_Some_newline)
  then show ?thesis using assms by simp
qed

lemma skip_line_Cons:
  "skip_line (c # cs) = (if c = newline then Some cs else skip_line cs)"
  by (subst skip_line.simps) simp

lemma skip_line_newline:
  assumes "newline \<notin> set pre"
  shows "skip_line (pre @ newline # rest) = Some rest"
  using assms by (induction pre) (simp_all add: skip_line_Cons)

lemma skip_comments_other:
  assumes "x \<noteq> Some 0x23"
  shows "skip_comments x s = Some (x, s)"
  using assms by (subst skip_comments.simps) simp

lemma skip_comments_hash:
  "skip_comments (Some 0x23) s =
     Option.bind (skip_line s) (\<lambda>s'. case getc s' of (x', s'') \<Rightarrow> skip_comments x' s'')"
  by (subst skip_comments.simps) simp

lemma fgets_chars_Cons:
  assumes "0 < k"
  shows "fgets_chars k (c # cs) =
           (if c = newline then ([c], cs)
            else (case fgets_chars (k - 1) cs of (line, rest) \<Rightarrow> (c # line, rest)))"
  using assms by (cases k) simp_all

lemma fgets_chars_Nil: "fgets_chars k [] = ([], [])"
  by (cases k) simp_all

lemma fgets_marker:
  "fgets 64 (0x50 # 0x36 # 0x0A # s) = Some ([0x50, 0x36, 0x0A, 0], s)"
  by (simp add: fgets_def fgets_chars_Cons)

lemmas header_eval = read_header_def fgets_def fgets_chars_Cons fgets_chars_Nil
  skip_comments_other skip_comments_hash skip_line_Cons scan_size_def scan_integer_def
  skip_spaces_def isspace_def isdigit_def to_long_def to_ulong_def to_int_def
  RGB_COMPONENT_COLOR_def Let_def bytes_of_def

lemma read_header_comment: "read_header comment_file = None"
  by (simp add: comment_file_def read_header_def bytes_of_def fgets_marker skip_comments_hash
        skip_line_no_newline)

lemma read_header_maxval: "read_header maxval_file = None"
  by (simp add: maxval_file_def read_header_def bytes_of_def fgets_marker skip_comments_other
        scan_size_def scan_integer_def skip_spaces_def isspace_def isdigit_def to_long_def
        to_ulong_def to_int_def RGB_COMPONENT_COLOR_def skip_line_no_newline Let_def)

text \<open>
  Claim C9 says that \<^verbatim>\<open>read_image\<close> returns on every finite input. It does not: on a file
  that ends inside a header comment, and on a file that ends right after the maximum
  colour value, the loop waiting for a newline never ends.
\<close>

theorem read_image_does_not_return:
  "read_image ''comment.ppm'' truncated_world = None
   \<and> read_image ''maxval.ppm'' truncated_world = None"
  by (simp add: read_image_def truncated_world_def read_header_comment read_header_maxval)

lemma fgets_Nil: "fgets n [] = None"
  by (simp add: fgets_def fgets_chars_Nil)

lemma fgets_first_bytes:
  "\<exists>buff s1. fgets 64 (c0 # rest) = Some (buff, s1) \<and> buff ! 0 = c0
      \<and> buff ! 1 = (if c0 = newline \<or> rest = [] then 0 else hd rest)"
proof (cases "c0 = newline")
  case True
  then show ?thesis by (simp add: fgets_def fgets_chars_Cons)
next
  case False
  show ?thesis
  proof (cases rest)
    case Nil
    then show ?thesis using False by (simp add: fgets_def fgets_chars_Cons fgets_chars_Nil)
  next
    case (Cons c1 rest')
    then show ?thesis using False
      by (simp add: fgets_def fgets_chars_Cons split: prod.splits)
  qed
qed

lemma header_tail_not_format_error:
  "Option.bind (skip_comments x s2) (\<lambda>(x', s3).
      (case scan_size (ungetc x' s3) of
         None \<Rightarrow> Some (Inl SizeError)
       | Some ((width, height), s4) \<Rightarrow>
           (case scan_integer s4 of
              None \<Rightarrow> Some (Inl RangeError)
            | Some (v, s5) \<Rightarrow>
                if to_int (to_long v) \<noteq> RGB_COMPONENT_COLOR then Some (Inl RangeError)
                else Option.bind (skip_line s5) (\<lambda>s6. Some (Inr (width, height, s6))))))
     \<noteq> Some (Inl FormatError)"
  by (auto simp: bind_eq_Some_conv split: option.splits prod.splits if_splits)

lemma read_header_format_error:
  "read_header bs = Some (Inl FormatError) \<longleftrightarrow> take 2 bs \<noteq> [0x50, 0x36]"
proof (cases bs)
  case Nil
  then show ?thesis by (simp add: read_header_def fgets_Nil)
next
  case (Cons c0 rest)
  obtain buff s1 where f: "fgets 64 (c0 # rest) = Some (buff, s1)" "buff ! 0 = c0"
      "buff ! 1 = (if c0 = newline \<or> rest = [] then 0 else hd rest)"
    using fgets_first_bytes [of c0 rest] by blast
  show ?thesis
  proof (cases "buff ! 0 \<noteq> 0x50 \<or> buff ! 1 \<noteq> 0x36")
    case True
    then have "read_header bs = Some (Inl FormatError)"
      using f(1) Cons by (simp add: read_header_def)
    moreover have "take 2 bs \<noteq> [0x50, 0x36]"
      using True f(2,3) Cons by (cases rest) (auto split: if_splits)
    ultimately show ?thesis by simp
  next
    case False
    then have "read_header bs \<noteq> Some (Inl FormatError)"
      using f(1) Cons header_tail_not_format_error
      by (simp add: read_header_def split: prod.splits)
    moreover have "take 2 bs = [0x50, 0x36]"
      using False f(2,3) Cons by (cases rest) (auto split: if_splits)
    ultimately show ?thesis by simp
  qed
qed

lemma read_image_header:
  assumes "files wd filename = Some bs"
  shows "read_image filename wd =
           (case read_header bs of
              None \<Rightarrow> None
            | Some (Inl e) \<Rightarrow> Some (Inl (e, log_error (error_message e filename) wd))
            | Some (Inr (width, height, s)) \<Rightarrow>
                (case read_pixels 0 (to_ulong (int (width * height))) s
                        (malloc_pixels wd (to_ulong (int (width * height * 3)))) of
                   Inl f \<Rightarrow> Some (Inr (Inl f))
                 | Inr img \<Rightarrow> Some (Inr (Inr (img, width, height)))))"
  using assms by (simp add: read_image_def split: option.splits sum.splits prod.splits)

lemma read_header_marker_file: "read_header marker_file = Some (Inr (1, 1, [10, 20, 30]))"
  by (simp add: marker_file_def header_eval)

lemma read_pixels_one:
  "read_pixels 0 (to_ulong (int (1 * 1))) [c0, c1, c2] (malloc_pixels wd (to_ulong (int (1 * 1 * 3))))
     = Inr [\<lparr>r = c0, g = c1, b = c2\<rparr>]"
  by (simp add: read_pixels.simps to_ulong_def in_int_def malloc_pixels_def)

lemma read_image_marker_file:
  "read_image ''marker.ppm'' marker_world = Some (Inr (Inr ([\<lparr>r = 10, g = 20, b = 30\<rparr>], 1, 1)))"
proof -
  have f: "files marker_world ''marker.ppm'' = Some marker_file"
    by (simp add: marker_world_def example_world_def)
  show ?thesis
    unfolding read_image_header [OF f] read_header_marker_file
    by (simp only: option.case sum.case prod.case read_pixels_one)
qed

text \<open>
  Claim C10. For a file that can be opened, \<^verbatim>\<open>read_image\<close> fails with the format error
  exactly when the first two bytes of the file are not \<open>P\<close> and \<open>6\<close>: whatever follows
  them on the first line plays no part.
\<close>

theorem format_error_iff_marker:
  assumes "files wd filename = Some bs"
  shows "(\<exists>wd'. read_image filename wd = Some (Inl (FormatError, wd')))
           \<longleftrightarrow> take 2 bs \<noteq> [0x50, 0x36]"
proof -
  have "(\<exists>wd'. read_image filename wd = Some (Inl (FormatError, wd')))
          \<longleftrightarrow> read_header bs = Some (Inl FormatError)"
  proof (cases "read_header bs")
    case None
    then show ?thesis by (simp add: read_image_header [OF assms])
  next
    case (Some hdr)
    then show ?thesis
      by (cases hdr) (auto simp: read_image_header [OF assms] split: sum.splits)
  qed
  then show ?thesis by (simp only: read_header_format_error)
qed

lemma fread3_cases:
  obtains (full) c0 c1 c2 s' where "s = c0 # c1 # c2 # s'" "fread3 s = (Some (c0, c1, c2), s')"
        | (short) "length s < 3" "fread3 s = (None, [])"
proof -
  consider "length s < 3" | "3 \<le> length s" by linarith
  then show ?thesis
  proof cases
    case 1
    then have "fread3 s = (None, [])" by (cases s rule: fread3.cases) simp_all
    then show ?thesis using 1 short by blast
  next
    case 2
    then obtain c0 c1 c2 s' where s: "s = c0 # c1 # c2 # s'"
      by (cases s rule: fread3.cases) simp_all
    then have "fread3 s = (Some (c0, c1, c2), s')" by simp
    then show ?thesis using s full by blast
  qed
qed

lemma set_pixel_fields:
  fixes px :: PPMPixel
  shows "px\<lparr>r := c0, g := c1, b := c2\<rparr> = \<lparr>r = c0, g = c1, b = c2\<rparr>"
  by (cases px) simp

lemma length_nat_read_pixels [simp]: "length (nat_read_pixels i n s img) = length img"
proof (induction i n s img rule: nat_read_pixels.induct)
  case (1 i n s img)
  show ?case
  proof (cases "i < n")
    case False
    then show ?thesis by (subst nat_read_pixels.simps) simp
  next
    case True
    show ?thesis
    proof (cases s rule: fread3_cases)
      case (full c0 c1 c2 s')
      then show ?thesis
        using True "1.IH" [OF True full(2) [symmetric] refl refl]
        by (subst nat_read_pixels.simps) simp
    next
      case short
      then show ?thesis using True by (subst nat_read_pixels.simps) simp
    qed
  qed
qed

lemma pixel_at_0: "pixel_at (c0 # c1 # c2 # s) 0 = \<lparr>r = c0, g = c1, b = c2\<rparr>"
  by (simp add: pixel_at_def)

lemma pixel_at_Suc: "pixel_at (c0 # c1 # c2 # s) (Suc k) = pixel_at s k"
  by (simp add: pixel_at_def)

lemma nat_read_pixels_nth:
  assumes "j < length img"
  shows "nat_read_pixels i n s img ! j =
           (if i \<le> j \<and> j < n \<and> j - i < length s div 3 then pixel_at s (j - i) else img ! j)"
  using assms
proof (induction i n s img rule: nat_read_pixels.induct)
  case (1 i n s img)
  show ?case
  proof (cases "i < n")
    case False
    then have "\<not> (i \<le> j \<and> j < n)" by linarith
    then show ?thesis using False by (subst nat_read_pixels.simps) auto
  next
    case True
    show ?thesis
    proof (cases s rule: fread3_cases)
      case short
      then have "length s div 3 = 0" by simp
      then show ?thesis using True short by (subst nat_read_pixels.simps) simp
    next
      case (full c0 c1 c2 s')
      define img' where "img' = img[i := (img ! i)\<lparr>r := c0, g := c1, b := c2\<rparr>]"
      have len: "j < length img'" using "1.prems" by (simp add: img'_def)
      have IH: "nat_read_pixels (i + 1) n s' img' ! j =
                  (if i + 1 \<le> j \<and> j < n \<and> j - (i + 1) < length s' div 3
                   then pixel_at s' (j - (i + 1)) else img' ! j)"
        using "1.IH" [OF True full(2) [symmetric] refl refl] len by (simp add: img'_def)
      have unfold: "nat_read_pixels i n s img = nat_read_pixels (i + 1) n s' img'"
        using True full(2) by (subst nat_read_pixels.simps) (simp add: img'_def)
      have div: "length s div 3 = Suc (length s' div 3)" using full(1) by simp
      consider "j < i" | "j = i" | "i < j" by linarith
      then show ?thesis
      proof cases
        case 1
        then show ?thesis unfolding unfold IH by (simp add: img'_def)
      next
        case 2
        then show ?thesis
          unfolding unfold IH using "1.prems" True
          by (simp add: img'_def div full(1) pixel_at_0 set_pixel_fields)
      next
        case 3
        define k where "k = j - Suc i"
        have k: "j - i = Suc k" "j - Suc i = k" using 3 by (simp_all add: k_def)
        show ?thesis
          unfolding unfold IH using 3
          by (simp add: img'_def div full(1) k pixel_at_Suc)
      qed
    qed
  qed
qed

lemma read_pixels_nat:
  assumes "i \<le> n" and "min n (i + length s div 3) < 2 ^ 31"
      and "min n (i + length s div 3) \<le> length img"
  shows "read_pixels (int i) n s img = Inr (nat_read_pixels i n s img)"
  using assms
proof (induction i n s img rule: nat_read_pixels.induct)
  case (1 i n s img)
  have "i \<le> min n (i + length s div 3)" using "1.prems"(1) by simp
  then have i31: "i < 2 ^ 31" using "1.prems"(2) by (rule le_less_trans)
  have "i < 2 ^ 64" by (rule less_trans [OF i31]) simp
  then have c: "to_ulong (int i) = i" by (rule to_ulong_of_nat)
  show ?case
  proof (cases "i < n")
    case False
    then show ?thesis
      by (subst read_pixels.simps, subst nat_read_pixels.simps) (simp add: c)
  next
    case True
    show ?thesis
    proof (cases s rule: fread3_cases)
      case short
      then show ?thesis
        using True by (subst read_pixels.simps, subst nat_read_pixels.simps) (simp add: c)
    next
      case (full c0 c1 c2 s')
      have div: "length s div 3 = Suc (length s' div 3)" using full(1) by simp
      have m: "min n (i + 1 + length s' div 3) = min n (i + length s div 3)"
        unfolding div by simp
      have a: "i + 1 \<le> min n (i + length s div 3)" using True unfolding div by simp
      have nxt: "i + 1 < 2 ^ 31" "i + 1 \<le> length img"
        by (rule le_less_trans [OF a "1.prems"(2)], rule le_trans [OF a "1.prems"(3)])
      have "in_int (int (i + 1))" by (rule in_int_of_nat [OF nxt(1)])
      then have ov: "in_int (int i + 1)" by (simp add: add.commute)
      have inb: "\<not> length img \<le> i" using nxt(2) by simp
      have le: "i + 1 \<le> n" using True by simp
      have IH: "read_pixels (int (i + 1)) n s' (img[i := (img ! i)\<lparr>r := c0, g := c1, b := c2\<rparr>])
                  = Inr (nat_read_pixels (i + 1) n s' (img[i := (img ! i)\<lparr>r := c0, g := c1, b := c2\<rparr>]))"
        using "1.IH" [OF True full(2) [symmetric] refl refl refl le] "1.prems"(2,3)
        unfolding m by simp
      have i1: "int i + 1 = int (i + 1)" by simp
      show ?thesis
        apply (subst read_pixels.simps)
        apply (subst nat_read_pixels.simps)
        apply (simp only: c True if_True full(2) prod.case option.case nat_int of_nat_less_0_iff
                 inb ov simp_thms if_False)
        apply (simp only: i1 IH)
        done
    qed
  qed
qed

lemma read_pixels_overflow:
  assumes "0 \<le> i" and "i < 2 ^ 31" and "2 ^ 31 \<le> n"
      and "3 * nat (2 ^ 31 - i) \<le> length s" and "2 ^ 31 \<le> length img"
  shows "read_pixels i n s img = Inl SignedOverflow"
  using assms
proof (induction i n s img rule: read_pixels.induct)
  case (1 i n s img)
  have "nat i < 2 ^ 31" using "1.prems"(1,2) by simp
  then have lt: "nat i < n" "nat i < length img" using "1.prems"(3,5) by simp_all
  have "nat i < 2 ^ 64" by (rule less_trans [OF \<open>nat i < 2 ^ 31\<close>]) simp
  then have "to_ulong (int (nat i)) = nat i" by (rule to_ulong_of_nat)
  then have c: "to_ulong i = nat i" using "1.prems"(1) by simp
  have cond: "to_ulong i < n" unfolding c by (rule lt(1))
  have "1 \<le> nat (2 ^ 31 - i)" using "1.prems"(2) by simp
  then have "3 \<le> length s" using "1.prems"(4) by simp
  then obtain c0 c1 c2 s' where s: "s = c0 # c1 # c2 # s'" "fread3 s = (Some (c0, c1, c2), s')"
    by (cases s rule: fread3_cases) simp_all
  have inb: "\<not> (i < 0 \<or> length img \<le> nat i)" using "1.prems"(1) lt(2) by simp
  show ?case
  proof (cases "in_int (i + 1)")
    case False
    then show ?thesis
      by (subst read_pixels.simps) (simp only: cond if_True s(2) prod.case option.case inb if_False simp_thms)
  next
    case True
    then have nxt: "i + 1 < 2 ^ 31" by (simp add: in_int_def)
    have len: "3 * nat (2 ^ 31 - (i + 1)) \<le> length s'"
      using "1.prems"(1,4) nxt unfolding s(1) by simp
    have nn: "\<not> \<not> in_int (i + 1)" using True by simp
    have IH: "read_pixels (i + 1) n s' (img[nat i := (img ! nat i)\<lparr>r := c0, g := c1, b := c2\<rparr>])
                = Inl SignedOverflow"
      using "1.IH" [OF cond s(2) [symmetric] refl refl refl inb nn] "1.prems"(1,3,5) nxt len
      by simp
    show ?thesis
      by (subst read_pixels.simps)
         (simp only: cond if_True s(2) prod.case option.case inb if_False True simp_thms IH)
  qed
qed


lemma length_malloc [simp]:
  assumes "n * 3 < 2 ^ 64"
  shows "length (malloc_pixels wd (to_ulong (int (n * 3)))) = n"
  unfolding to_ulong_of_nat [OF assms(1)] by (simp add: malloc_pixels_def)

lemma pixel_count_ulong:
  assumes "n * 3 < 2 ^ 64"
  shows "to_ulong (int n) = n"
proof -
  have "n \<le> n * 3" by simp
  then have "n < 2 ^ 64" using assms by (rule le_less_trans)
  then show ?thesis by (rule to_ulong_of_nat)
qed




theorem format_error_iff_marker_witness:
  "files marker_world ''marker.ppm'' = Some marker_file
   \<and> take 2 marker_file = [0x50, 0x36]
   \<and> \<not> (\<exists>wd'. read_image ''marker.ppm'' marker_world = Some (Inl (FormatError, wd')))
   \<and> read_image ''marker.ppm'' marker_world
       = Some (Inr (Inr ([\<lparr>r = 10, g = 20, b = 30\<rparr>], 1, 1)))"
proof -
  have f: "files marker_world ''marker.ppm'' = Some marker_file"
    by (simp add: marker_world_def example_world_def)
  have t: "take 2 marker_file = [0x50, 0x36]"
    by (simp add: marker_file_def bytes_of_def)
  show ?thesis
    using format_error_iff_marker [OF f] f t read_image_marker_file by simp
qed

lemma apply_filters_world:
  assumes "apply_filters img w h wd = Inr (out, wd')"
  shows "files wd' = files wd" "can_write wd' = can_write wd" "stderr wd' = stderr wd"
    "stdout wd' = stdout wd" "uninit wd' = uninit wd"
  using assms
  by (auto simp: apply_filters_def gettimeofday_def split: sum.splits)

lemma write_image_unwritable:
  assumes "\<not> can_write wd filename"
  shows "write_image img filename width height wd =
           Inl (NullStream, log_error (error_message IOError filename) wd)"
  using assms by (simp add: write_image_def)

lemma manage_image_file_unwritable:
  assumes "read_image (input_file_name args) wd = Some (Inr (Inr (img, width, height)))"
      and "apply_filters img width height wd = Inr (out, wd1)"
      and "\<not> can_write wd (output_file_name args)"
  shows "manage_image_file args wd =
           Some (Inl (NullStream, log_error (error_message IOError (output_file_name args)) wd1))"
proof -
  have "\<not> can_write wd1 (output_file_name args)"
    using assms(3) by (simp add: apply_filters_world(2) [OF assms(2)])
  then show ?thesis
    using assms(1,2)
    by (simp add: manage_image_file_def write_image_unwritable)
qed

lemma dec_digits_small: "n < 10 \<Longrightarrow> dec_digits n = [n]"
  by (subst dec_digits.simps) simp

lemma file_names_two:
  "file_names [''a.ppm'', ''c.ppm''] =
     [\<lparr>input_file_name = ''a.ppm'', output_file_name = ''laplacian1.ppm''\<rparr>,
      \<lparr>input_file_name = ''c.ppm'', output_file_name = ''laplacian2.ppm''\<rparr>]"
  by (simp add: file_names_def dec_string_def dec_digits_small)

lemma read_image_a_readonly:
  "read_image ''a.ppm'' readonly_world = Some (Inr (Inr ([\<lparr>r = 10, g = 20, b = 30\<rparr>], 1, 1)))"
proof -
  have f: "files readonly_world ''a.ppm''
             = Some (bytes_of ''P6'' @ [newline] @ bytes_of ''1 1'' @ [newline] @ bytes_of ''255''
                       @ [newline, 10, 20, 30])"
    by (simp add: readonly_world_def batch_world_def example_world_def)
  have h: "read_header (bytes_of ''P6'' @ [newline] @ bytes_of ''1 1'' @ [newline] @ bytes_of ''255''
                       @ [newline, 10, 20, 30]) = Some (Inr (1, 1, [10, 20, 30]))"
    by (simp add: header_eval)
  show ?thesis
    unfolding read_image_header [OF f] h
    by (simp only: option.case sum.case prod.case read_pixels_one)
qed

text \<open>
  Claim C5 says that a destination that cannot be opened makes \<^verbatim>\<open>write_image\<close> skip the
  encoding and return to its caller. The code reports the failure and then writes the
  header to the \<^verbatim>\<open>NULL\<close> stream: undefined behaviour, which ends the whole batch; the
  output of the next input is never written.
\<close>

theorem write_image_unopenable_destination:
  "write_image [\<lparr>r = 0, g = 0, b = 0\<rparr>] ''laplacian1.ppm'' 1 1 readonly_world
     = Inl (NullStream, log_error (error_message IOError ''laplacian1.ppm'') readonly_world)
   \<and> (\<exists>wd. main [''edge'', ''a.ppm'', ''c.ppm''] readonly_world = Some (Inl (NullStream, wd))
          \<and> files wd ''laplacian1.ppm'' = None \<and> files wd ''laplacian2.ppm'' = None)"
proof -
  have cw: "\<not> can_write readonly_world ''laplacian1.ppm''"
    by (simp add: readonly_world_def)
  have b: "(1::nat) < 2 ^ 31" by simp
  obtain out wd1 where af: "apply_filters [\<lparr>r = 10, g = 20, b = 30\<rparr>] 1 1 readonly_world = Inr (out, wd1)"
    using apply_filters_pass [OF b b, of "[\<lparr>r = 10, g = 20, b = 30\<rparr>]" readonly_world] by auto
  have m: "manage_image_file \<lparr>input_file_name = ''a.ppm'', output_file_name = ''laplacian1.ppm''\<rparr>
             readonly_world =
           Some (Inl (NullStream, log_error (error_message IOError ''laplacian1.ppm'') wd1))"
    using manage_image_file_unwritable
            [of "\<lparr>input_file_name = ''a.ppm'', output_file_name = ''laplacian1.ppm''\<rparr>"
                readonly_world "[\<lparr>r = 10, g = 20, b = 30\<rparr>]" 1 1 out wd1]
          read_image_a_readonly af cw
    by simp
  have "main [''edge'', ''a.ppm'', ''c.ppm''] readonly_world =
          Some (Inl (NullStream, log_error (error_message IOError ''laplacian1.ppm'') wd1))"
    by (simp add: main_def file_names_two m)
  moreover have "files (log_error (error_message IOError ''laplacian1.ppm'') wd1) name
                   = files readonly_world name" for name
    by (simp add: log_error_def apply_filters_world(1) [OF af])
  moreover have "files readonly_world ''laplacian1.ppm'' = None"
      "files readonly_world ''laplacian2.ppm'' = None"
    by (simp_all add: readonly_world_def batch_world_def example_world_def)
  ultimately show ?thesis
    using write_image_unwritable [OF cw] by simp
qed

section \<open>The round trip\<close>

lemma dec_digits_less: "d \<in> set (dec_digits n) \<Longrightarrow> d < 10"
proof (induction n arbitrary: d rule: dec_digits.induct)
  case (1 n)
  show ?case
  proof (cases "n < 10")
    case True
    then show ?thesis using "1.prems" by (simp add: dec_digits_small)
  next
    case False
    then have "dec_digits n = dec_digits (n div 10) @ [n mod 10]"
      by (subst dec_digits.simps) simp
    then show ?thesis using "1.prems" "1.IH" [OF False] by auto
  qed
qed

lemma dec_digits_not_Nil: "dec_digits n \<noteq> []"
  by (subst dec_digits.simps) simp

lemma unat_digit:
  assumes "d < 10"
  shows "unat (48 + of_nat d :: byte) = 48 + d"
proof (rule of_nat_inverse)
  show "word_of_nat (48 + d) = (48 + of_nat d :: byte)" by simp
  show "48 + d < 2 ^ LENGTH(8)" using assms by simp
qed

lemma uint_digit:
  assumes "d < 10"
  shows "uint (48 + of_nat d :: byte) = 48 + int d"
  using unat_digit [OF assms] by (simp add: uint_nat)

lemma isdigit_digit:
  assumes "d < 10"
  shows "isdigit (48 + of_nat d)"
proof -
  have "unat (0x30 :: byte) \<le> unat (48 + of_nat d :: byte)"
    unfolding unat_digit [OF assms] by simp
  moreover have "unat (48 + of_nat d :: byte) \<le> unat (0x39 :: byte)"
    unfolding unat_digit [OF assms] using assms by simp
  ultimately show ?thesis
    unfolding isdigit_def word_le_nat_alt by simp
qed

lemma isdigit_not_space: "isdigit c \<Longrightarrow> \<not> isspace c"
  unfolding isdigit_def isspace_def word_le_nat_alt by auto

lemma isdigit_not_sign: "isdigit c \<Longrightarrow> c \<noteq> 0x2D \<and> c \<noteq> 0x2B \<and> c \<noteq> 0x23 \<and> c \<noteq> newline"
  unfolding isdigit_def word_le_nat_alt by auto

lemma dec_all_digits: "c \<in> set (dec n) \<Longrightarrow> isdigit c"
  unfolding dec_def using dec_digits_less isdigit_digit by auto

lemma dec_not_Nil: "dec n \<noteq> []"
  by (simp add: dec_def dec_digits_not_Nil)

lemma isdigit_hd_dec: "isdigit (hd (dec n))"
  using dec_all_digits [of "hd (dec n)" n] dec_not_Nil [of n] by simp

lemma digits_value_append:
  "digits_value acc (xs @ ys) = digits_value (digits_value acc xs) ys"
  by (induction xs arbitrary: acc) simp_all

lemma digits_value_dec: "digits_value 0 (dec n) = int n"
proof (induction n rule: dec_digits.induct)
  case (1 n)
  show ?case
  proof (cases "n < 10")
    case True
    then show ?thesis by (simp add: dec_def dec_digits_small uint_digit)
  next
    case False
    have m: "n mod 10 < 10" by simp
    have "dec n = dec (n div 10) @ [48 + of_nat (n mod 10)]"
      unfolding dec_def using False by (subst dec_digits.simps) simp
    then have "digits_value 0 (dec n) = int (n div 10) * 10 + int (n mod 10)"
      using "1.IH" [OF False] by (simp add: digits_value_append uint_digit [OF m])
    also have "\<dots> = int (n div 10 * 10 + n mod 10)"
      by (simp only: of_nat_add of_nat_mult of_nat_numeral)
    also have "\<dots> = int n" by (simp only: div_mult_mod_eq)
    finally show ?thesis .
  qed
qed

lemma scan_integer_dec:
  assumes "rest = [] \<or> \<not> isdigit (hd rest)"
  shows "scan_integer (dec n @ rest) = Some (int n, rest)"
proof -
  have ne: "dec n @ rest \<noteq> []" using dec_not_Nil by simp
  have hd: "hd (dec n @ rest) = hd (dec n)" using dec_not_Nil by simp
  have sp: "skip_spaces (dec n @ rest) = dec n @ rest"
    unfolding skip_spaces_def dropWhile_eq_self_iff hd
    using isdigit_not_space [OF isdigit_hd_dec] by simp
  have sign: "hd (dec n @ rest) \<noteq> 0x2D" "hd (dec n @ rest) \<noteq> 0x2B"
    unfolding hd using isdigit_not_sign [OF isdigit_hd_dec] by simp_all
  have tw: "takeWhile isdigit rest = []" using assms by (cases rest) auto
  have dw: "dropWhile isdigit rest = rest" using assms by (cases rest) auto
  have t: "takeWhile isdigit (dec n @ rest) = dec n"
    using dec_all_digits tw by (simp add: takeWhile_append2)
  have d: "dropWhile isdigit (dec n @ rest) = rest"
    using dec_all_digits dw by (simp add: dropWhile_append2)
  show ?thesis
    unfolding scan_integer_def sp Let_def
    using sign by (simp add: t d dec_not_Nil digits_value_dec)
qed

lemma scan_integer_space:
  assumes "isspace c"
  shows "scan_integer (c # s) = scan_integer s"
proof -
  have "skip_spaces (c # s) = skip_spaces s" using assms by (simp add: skip_spaces_def)
  moreover have "skip_spaces (skip_spaces s) = skip_spaces s"
    unfolding skip_spaces_def by (simp add: dropWhile_idem)
  ultimately show ?thesis
    unfolding scan_integer_def by simp
qed

lemma skip_spaces_dec:
  assumes "isspace c"
  shows "skip_spaces (c # dec n @ rest) = dec n @ rest"
proof -
  have "hd (dec n @ rest) = hd (dec n)" using dec_not_Nil by simp
  then have "dropWhile isspace (dec n @ rest) = dec n @ rest"
    unfolding dropWhile_eq_self_iff using isdigit_not_space [OF isdigit_hd_dec] by simp
  then show ?thesis using assms by (simp add: skip_spaces_def)
qed

lemma to_ulong_to_long:
  assumes "n < 2 ^ 63"
  shows "to_ulong (to_long (int n)) = n"
proof -
  have "int n < 2 ^ 63" using assms by (metis of_nat_less_iff of_nat_numeral of_nat_power)
  then have "to_long (int n) = int n" by (simp add: to_long_def)
  moreover have "n < 2 ^ 64"
    by (rule less_trans [OF assms]) simp
  ultimately show ?thesis by (simp add: to_ulong_of_nat)
qed

lemma scan_size_dec:
  assumes "width < 2 ^ 63" "height < 2 ^ 63" "rest = [] \<or> \<not> isdigit (hd rest)"
  shows "scan_size (dec width @ 0x20 # dec height @ rest) = Some ((width, height), rest)"
proof -
  have sp: "isspace 0x20" by (simp add: isspace_def)
  have nd: "\<not> isdigit 0x20" by (simp add: isdigit_def)
  have 1: "scan_integer (dec width @ 0x20 # dec height @ rest)
             = Some (int width, 0x20 # dec height @ rest)"
    by (rule scan_integer_dec) (simp add: nd)
  have 2: "scan_integer (skip_spaces (0x20 # dec height @ rest)) = Some (int height, rest)"
    unfolding skip_spaces_dec [OF sp] by (rule scan_integer_dec [OF assms(3)])
  show ?thesis
    by (simp add: scan_size_def 1 2 to_ulong_to_long [OF assms(1)] to_ulong_to_long [OF assms(2)])
qed


lemma scan_maxval:
  "scan_integer (newline # dec 255 @ newline # data) = Some (255, newline # data)"
proof -
  have sp: "isspace newline" by (simp add: isspace_def)
  have nd: "\<not> isdigit newline" by (simp add: isdigit_def)
  have "scan_integer (dec 255 @ newline # data) = Some (int 255, newline # data)"
    by (rule scan_integer_dec) (simp add: nd)
  then show ?thesis
    unfolding scan_integer_space [OF sp] by simp
qed

lemma read_header_encoded:
  assumes "width < 2 ^ 63" "height < 2 ^ 63"
  shows "read_header (0x50 # 0x36 # newline # dec width @ 0x20 # dec height @ newline
                        # dec 255 @ newline # data)
           = Some (Inr (width, height, data))"
proof -
  obtain c cs where c: "dec width = c # cs" using dec_not_Nil [of width] by (cases "dec width") auto
  have "isdigit c" using dec_all_digits [of c width] c by simp
  then have hash: "Some c \<noteq> Some 0x23" using isdigit_not_sign by auto
  have nd: "\<not> isdigit newline" by (simp add: isdigit_def)
  have size: "scan_size (c # cs @ 0x20 # dec height @ newline # dec 255 @ newline # data)
                = Some ((width, height), newline # dec 255 @ newline # data)"
    using scan_size_dec [OF assms, of "newline # dec 255 @ newline # data"] nd c by simp
  show ?thesis
    unfolding read_header_def fgets_marker
    by (simp add: c skip_comments_other [OF hash] size scan_maxval to_long_def to_int_def
          RGB_COMPONENT_COLOR_def skip_line_Cons)
qed

lemma length_pixel_bytes: "length (pixel_bytes img) = 3 * length img"
  by (induction img) (simp_all add: pixel_bytes_def)

lemma pixel_at_pixel_bytes:
  assumes "j < length img"
  shows "pixel_at (pixel_bytes img) j = img ! j"
  using assms
proof (induction img arbitrary: j)
  case Nil
  then show ?case by simp
next
  case (Cons px img)
  have e: "pixel_bytes (px # img) = r px # g px # b px # pixel_bytes img"
    by (simp add: pixel_bytes_def)
  show ?case
  proof (cases j)
    case 0
    then show ?thesis unfolding e by (simp add: pixel_at_0)
  next
    case (Suc k)
    then show ?thesis unfolding e using Cons by (simp add: pixel_at_Suc)
  qed
qed

lemma nat_read_pixels_pixel_bytes:
  assumes "length buf = length img"
  shows "nat_read_pixels 0 (length img) (pixel_bytes img) buf = img"
proof (rule nth_equalityI)
  show "length (nat_read_pixels 0 (length img) (pixel_bytes img) buf) = length img"
    using assms by simp
next
  fix j assume "j < length (nat_read_pixels 0 (length img) (pixel_bytes img) buf)"
  then have j: "j < length img" using assms by simp
  then show "nat_read_pixels 0 (length img) (pixel_bytes img) buf ! j = img ! j"
    using assms by (simp add: nat_read_pixels_nth length_pixel_bytes pixel_at_pixel_bytes)
qed

lemma dimension_bounds:
  fixes width height :: nat
  assumes "0 < width" "0 < height" "width * height * 3 < 2 ^ 64"
  shows "width < 2 ^ 63" "height < 2 ^ 63" "3 * width < 2 ^ 64"
proof -
  have w: "width \<le> width * height" using assms(2) by simp
  have h: "height \<le> width * height" using assms(1) by simp
  have b: "width * height * 3 < 18446744073709551616" using assms(3) by simp
  have "width < 9223372036854775808" using w b by linarith
  then show "width < 2 ^ 63" by simp
  have "height < 9223372036854775808" using h b by linarith
  then show "height < 2 ^ 63" by simp
  have "3 * width < 18446744073709551616" using w b by linarith
  then show "3 * width < 2 ^ 64" by simp
qed

lemma write_image_writable:
  assumes "can_write wd filename"
  shows "write_image img filename width height wd =
           Inr (wd\<lparr>files := (files wd)(filename \<mapsto>
                  0x50 # 0x36 # newline # dec width @ 0x20 # dec height @ newline # dec 255 @ newline
                    # take (to_ulong (int (3 * width)) * height) (pixel_bytes img))\<rparr>)"
  using assms
  by (simp add: write_image_def Let_def bytes_of_def RGB_COMPONENT_COLOR_def del: of_nat_mult)

lemma small_image_bounds:
  fixes width height :: nat
  assumes "width * height < 2 ^ 31"
  shows "width * height * 3 < 2 ^ 64"
proof -
  have "width * height * 3 < 2 ^ 31 * 3"
    using assms by (rule mult_strict_right_mono) simp
  also have "\<dots> < (2 ^ 64 :: nat)" by simp
  finally show ?thesis .
qed

text \<open>
  Claim C7, for an image of fewer than \<open>2^31\<close> pixels. For an image of positive width and
  height whose buffer holds \<open>width * height\<close> pixels and a destination that can be opened,
  \<^verbatim>\<open>write_image\<close> writes a file from which \<^verbatim>\<open>read_image\<close> returns the same pixels,
  width and height; the header it parses is the one written, and what follows the header is
  the pixel data.
\<close>

theorem decode_encode_roundtrip:
  assumes "0 < width" and "0 < height" and "length img = width * height"
      and "width * height < 2 ^ 31" and "can_write wd filename"
  shows "\<exists>wd'. write_image img filename width height wd = Inr wd'
           \<and> read_image filename wd' = Some (Inr (Inr (img, width, height)))
           \<and> (\<exists>bs. files wd' filename = Some bs
                  \<and> read_header bs = Some (Inr (width, height, pixel_bytes img)))"
proof -
  note size = small_image_bounds [OF assms(4)]
  note bounds = dimension_bounds [OF assms(1,2) size]
  define bs where "bs = 0x50 # 0x36 # newline # dec width @ 0x20 # dec height @ newline
                          # dec 255 @ newline # pixel_bytes img"
  define wd' where "wd' = wd\<lparr>files := (files wd)(filename \<mapsto> bs)\<rparr>"
  have e: "to_ulong (int (3 * width)) * height = 3 * (width * height)"
    unfolding to_ulong_of_nat [OF bounds(3)] by simp
  have "take (to_ulong (int (3 * width)) * height) (pixel_bytes img) = pixel_bytes img"
    unfolding e by (simp add: length_pixel_bytes assms(3))
  then have w: "write_image img filename width height wd = Inr wd'"
    unfolding write_image_writable [OF assms(5)] wd'_def bs_def by simp
  have f: "files wd' filename = Some bs" by (simp add: wd'_def)
  have h: "read_header bs = Some (Inr (width, height, pixel_bytes img))"
    unfolding bs_def by (rule read_header_encoded [OF bounds(1,2)])
  have n: "to_ulong (int (width * height)) = length img"
    unfolding assms(3) by (rule pixel_count_ulong [OF size])
  have len: "length (malloc_pixels wd' (to_ulong (int (width * height * 3)))) = length img"
    unfolding assms(3) by (rule length_malloc [OF size])
  have m: "min (length img) (0 + length (pixel_bytes img) div 3) = length img"
    by (simp add: length_pixel_bytes)
  have l31: "length img < 2 ^ 31" unfolding assms(3) by (rule assms(4))
  have "read_pixels (int 0) (length img) (pixel_bytes img)
          (malloc_pixels wd' (to_ulong (int (width * height * 3))))
        = Inr (nat_read_pixels 0 (length img) (pixel_bytes img)
                 (malloc_pixels wd' (to_ulong (int (width * height * 3)))))"
    by (rule read_pixels_nat) (simp_all only: m l31 len le0 le_refl)
  then have rp: "read_pixels 0 (to_ulong (int (width * height))) (pixel_bytes img)
          (malloc_pixels wd' (to_ulong (int (width * height * 3)))) = Inr img"
    unfolding n nat_read_pixels_pixel_bytes [OF len] by simp
  have "read_image filename wd' = Some (Inr (Inr (img, width, height)))"
    unfolding read_image_header [OF f] h
    by (simp only: option.case sum.case prod.case rp)
  then show ?thesis using w f h by blast
qed

theorem decode_encode_roundtrip_witness:
  "(0::nat) < 1 \<and> (0::nat) < 2 \<and> length column_image = 1 * 2 \<and> (1::nat) * 2 < 2 ^ 31
   \<and> can_write example_world ''copy.ppm''
   \<and> (\<exists>wd'. write_image column_image ''copy.ppm'' 1 2 example_world = Inr wd'
          \<and> read_image ''copy.ppm'' wd' = Some (Inr (Inr (column_image, 1, 2))))"
proof -
  have h1: "(0::nat) < 1" and h2: "(0::nat) < 2" and h4: "(1::nat) * 2 < 2 ^ 31" by simp_all
  have h3: "length column_image = 1 * 2" by (simp add: column_image_def)
  have h5: "can_write example_world ''copy.ppm''" by (simp add: example_world_def)
  show ?thesis
    using decode_encode_roundtrip [OF h1 h2 h3 h4 h5] h1 h2 h3 h4 h5 by blast
qed

lemma decode_overflow:
  assumes "files wd filename = Some bs"
      and "read_header bs = Some (Inr (width, height, data))"
      and "width * height * 3 < 2 ^ 64"
      and "2 ^ 31 \<le> width * height"
      and "3 * 2 ^ 31 \<le> length data"
  shows "read_image filename wd = Some (Inr (Inl SignedOverflow))"
proof -
  have n: "to_ulong (int (width * height)) = width * height"
    by (rule pixel_count_ulong [OF assms(3)])
  have len: "length (malloc_pixels wd (to_ulong (int (width * height * 3)))) = width * height"
    by (rule length_malloc [OF assms(3)])
  have d: "3 * nat (2 ^ 31 - 0) \<le> length data" using assms(5) by simp
  have rp: "read_pixels 0 (to_ulong (int (width * height))) data
              (malloc_pixels wd (to_ulong (int (width * height * 3)))) = Inl SignedOverflow"
    unfolding n
    by (rule read_pixels_overflow [OF _ _ assms(4) d]) (simp_all only: len assms(4), simp_all)
  show ?thesis
    unfolding read_image_header [OF assms(1)] assms(2)
    by (simp only: option.case sum.case prod.case rp)
qed

text \<open>
  Claim C7 as it is stated, for every well-formed image: a counterexample. For the image
  of one row of \<open>2^31 + 1\<close> pixels \<open>(255, 0, 0)\<close>, \<^verbatim>\<open>write_image\<close> writes the file, and
  \<^verbatim>\<open>read_image\<close> of that file parses the header and reads \<open>2^31\<close> pixels, the last one
  at index \<^verbatim>\<open>INT_MAX\<close>; then it increments \<^verbatim>\<open>int i\<close>, which overflows while one pixel
  is still unread: it has no defined result.
\<close>

theorem roundtrip_large_image_counterexample:
  "(0::nat) < 2147483649 \<and> (0::nat) < 1
   \<and> length large_image = 2147483649 * 1
   \<and> can_write example_world ''large.ppm''
   \<and> write_image large_image ''large.ppm'' 2147483649 1 example_world = Inr large_world
   \<and> read_image ''large.ppm'' large_world = Some (Inr (Inl SignedOverflow))"
proof -
  have l: "length large_image = 2147483649"
    unfolding large_image_def by (simp only: length_replicate)
  have cw: "can_write example_world ''large.ppm''" by (simp add: example_world_def)
  have e: "large_file = 0x50 # 0x36 # newline # dec 2147483649 @ 0x20 # dec 1 @ newline
                          # dec 255 @ newline # pixel_bytes large_image"
    unfolding large_file_def bytes_of_def by (simp only: list.map append.simps) simp
  have "take (to_ulong (int (3 * 2147483649)) * 1) (pixel_bytes large_image) = pixel_bytes large_image"
    by (simp add: to_ulong_def length_pixel_bytes l)
  then have w: "write_image large_image ''large.ppm'' 2147483649 1 example_world = Inr large_world"
    unfolding write_image_writable [OF cw] large_world_def e by simp
  have f: "files large_world ''large.ppm'' = Some large_file" by (simp add: large_world_def)
  have h: "read_header large_file = Some (Inr (2147483649, 1, pixel_bytes large_image))"
    unfolding e by (rule read_header_encoded) simp_all
  have rd: "read_image ''large.ppm'' large_world = Some (Inr (Inl SignedOverflow))"
    by (rule decode_overflow [OF f h]) (simp_all add: length_pixel_bytes l)
  show ?thesis
    using w rd cw l by (intro conjI) simp_all
qed


section \<open>Properties of the batch\<close>

lemma malloc_pixels_stderr [simp]:
  "malloc_pixels (wd\<lparr>stderr := s\<rparr>) n = malloc_pixels wd n"
  by (simp add: malloc_pixels_def)




lemma forget_stderr_simps [simp]:
  "forget_stderr None = None"
  "forget_stderr (Some (Inr wd)) = Some (Inr (wd\<lparr>stderr := []\<rparr>))"
  "forget_stderr (Some (Inl (crash, wd))) = Some (Inl (crash, wd\<lparr>stderr := []\<rparr>))"
  by (simp_all add: forget_stderr_def)


















end
